theory Spec2Isabelle
  imports Complex_Main "HOL-Library.Word" "HOL-Library.Multiset"
begin

unbundle bit_operations_syntax

section \<open>The starfield generator \<^verbatim>\<open>add_starfield.c\<close>\<close>

text \<open>
  The program loads a gray/alpha image, shuffles all its coordinates, keeps the
  coordinates that pass a hash test and a proximity test (drawing a black pixel at each
  one it keeps), and finally draws every kept star in the glitter state that the frame
  number selects.  The sections below follow the source function by function; the three
  loops of \<^verbatim>\<open>main\<close> (initialise and shuffle, visit, render) are functions of their own.

  Conventions of the model.
  \<^item> \<^verbatim>\<open>uint32_t\<close> and \<^verbatim>\<open>uint8_t\<close> are \<open>32 word\<close> and \<open>8 word\<close>, so the hash and the phase
    wrap around as in C; the frame number is an \<open>int\<close> that the phase converts to
    \<^verbatim>\<open>uint32_t\<close>, and the frames of the program are the values of a 32-bit \<^verbatim>\<open>int\<close>.
  \<^item> Coordinates and array indices are \<open>int\<close>: the images the program can hold in memory
    keep \<^verbatim>\<open>width * height * 2\<close> far below \<open>2 ^ 31\<close>, so no index computation wraps.
  \<^item> The pixel buffer is a list of bytes, two per pixel (gray, alpha), row after row.
    A read or a write at an index outside the buffer is undefined behaviour in C; the
    model returns the error \<open>OutOfBounds\<close> there and every caller passes it on.
\<close>

subsection \<open>Data\<close>

type_synonym u8 = "8 word"
type_synonym u32 = "32 word"

text \<open>\<^verbatim>\<open>typedef struct { int x, y; } XY;\<close>\<close>

type_synonym XY = "int \<times> int"

text \<open>The two fields of \<^verbatim>\<open>png_image\<close> that the program reads.\<close>

record png_image =
  width :: nat
  height :: nat

datatype error = OutOfBounds

definition RADIUS :: int where
  "RADIUS = 12"

definition Max :: "int \<Rightarrow> int \<Rightarrow> int" where
  "Max a b = (if a > b then a else b)"

definition Min :: "int \<Rightarrow> int \<Rightarrow> int" where
  "Min a b = (if a < b then a else b)"

subsection \<open>Hashing\<close>

text \<open>
  Jenkins' one-at-a-time hash: the loop over the bytes, then the three final steps.
\<close>

definition mix :: "u32 \<Rightarrow> u8 \<Rightarrow> u32" where
  "mix hash b =
     (let h1 = hash + ucast b;
          h2 = h1 + push_bit 10 h1
      in h2 XOR drop_bit 6 h2)"

definition Hash :: "u8 list \<Rightarrow> u32" where
  "Hash bytes =
     (let h0 = foldl mix 0 bytes;
          h1 = h0 + push_bit 3 h0;
          h2 = h1 XOR drop_bit 11 h1
      in h2 + push_bit 15 h2)"

text \<open>
  \<^verbatim>\<open>memcpy(buffer, &x, sizeof(int))\<close>: the four bytes of a 32-bit \<^verbatim>\<open>int\<close> in memory order,
  least significant byte first (the program is built for little-endian machines).
\<close>

definition int_bytes :: "int \<Rightarrow> u8 list" where
  "int_bytes v =
     (let w = (word_of_int v :: u32)
      in [ucast w, ucast (drop_bit 8 w), ucast (drop_bit 16 w), ucast (drop_bit 24 w)])"

definition HashPair :: "int \<Rightarrow> int \<Rightarrow> u32" where
  "HashPair x y = Hash (int_bytes x @ int_bytes y)"

definition IsStarLocation :: "int \<Rightarrow> int \<Rightarrow> bool" where
  "IsStarLocation x y \<longleftrightarrow> HashPair x y AND 0x11111 = 0"

subsection \<open>Glitter phase\<close>

text \<open>
  \<^verbatim>\<open>j = (((HashPair(stars[i].x, stars[i].y) >> 4) + frame) / 5) % 4\<close>: the \<^verbatim>\<open>int\<close> frame is
  converted to \<^verbatim>\<open>uint32_t\<close>, and the sum, the quotient and the remainder are unsigned.
\<close>

definition phase :: "int \<Rightarrow> int \<Rightarrow> int \<Rightarrow> u32" where
  "phase x y frame = ((drop_bit 4 (HashPair x y) + word_of_int frame) div 5) mod 4"

text \<open>
  What the render loop does with a star whose phase is \<open>j\<close>: \<^verbatim>\<open>if( j == 0 )\<close> erases it,
  \<^verbatim>\<open>if( j == 1 || j == 3 ) continue\<close> leaves it alone, and what is left draws the cross.
\<close>

datatype glitter = Erase | Plain | Cross

definition glitter_of :: "u32 \<Rightarrow> glitter" where
  "glitter_of j = (if j = 0 then Erase else if j = 1 \<or> j = 3 then Plain else Cross)"

subsection \<open>The pixel buffer\<close>

definition and_then :: "error + 'a \<Rightarrow> ('a \<Rightarrow> error + 'b) \<Rightarrow> error + 'b" where
  "and_then r f = (case r of Inl e \<Rightarrow> Inl e | Inr v \<Rightarrow> f v)"

text \<open>\<^verbatim>\<open>pixels[k]\<close> as a read and as a write.\<close>

definition load :: "u8 list \<Rightarrow> int \<Rightarrow> error + u8" where
  "load pixels k =
     (if 0 \<le> k \<and> k < int (length pixels) then Inr (pixels ! nat k) else Inl OutOfBounds)"

definition store :: "u8 list \<Rightarrow> int \<Rightarrow> u8 \<Rightarrow> error + u8 list" where
  "store pixels k v =
     (if 0 \<le> k \<and> k < int (length pixels) then Inr (pixels[nat k := v]) else Inl OutOfBounds)"

subsection \<open>Proximity test\<close>

text \<open>
  The inner loop of \<^verbatim>\<open>IsEmptyRegion\<close> over the values of \<^verbatim>\<open>ix\<close>, and the outer loop over
  the values of \<^verbatim>\<open>iy\<close>.  \<open>Inr False\<close> is \<^verbatim>\<open>return 0\<close>; \<open>Inr True\<close> from the inner loop
  means that the row is finished and the outer loop goes on.  Neither loop changes its
  counter or its bound in the body, so the values of the counter are the integers from
  the initial value to the bound, both included (the test is \<^verbatim>\<open><=\<close>).
\<close>

fun scan_row :: "png_image \<Rightarrow> u8 list \<Rightarrow> int \<Rightarrow> int \<Rightarrow> int \<Rightarrow> int list \<Rightarrow> error + bool" where
  "scan_row img pixels x y iy [] = Inr True"
| "scan_row img pixels x y iy (ix # rest) =
     (let dy2 = (y - iy) * (y - iy);
          dx2 = (x - ix) * (x - ix)
      in if dx2 + dy2 > RADIUS * RADIUS then scan_row img pixels x y iy rest
         else case load pixels ((iy * int (width img) + ix) * 2 + 1) of
                Inl e \<Rightarrow> Inl e
              | Inr a \<Rightarrow> if a \<noteq> 0 then Inr False else scan_row img pixels x y iy rest)"

fun scan_rows :: "png_image \<Rightarrow> u8 list \<Rightarrow> int \<Rightarrow> int \<Rightarrow> int list \<Rightarrow> error + bool" where
  "scan_rows img pixels x y [] = Inr True"
| "scan_rows img pixels x y (iy # rest) =
     (case scan_row img pixels x y iy
             [Max (x - RADIUS) 0 .. Min (x + RADIUS) (int (width img))] of
        Inl e \<Rightarrow> Inl e
      | Inr False \<Rightarrow> Inr False
      | Inr True \<Rightarrow> scan_rows img pixels x y rest)"

definition IsEmptyRegion :: "png_image \<Rightarrow> u8 list \<Rightarrow> int \<Rightarrow> int \<Rightarrow> error + bool" where
  "IsEmptyRegion img pixels x y =
     scan_rows img pixels x y [Max (y - RADIUS) 0 .. Min (y + RADIUS) (int (height img))]"

subsection \<open>Drawing\<close>

definition DrawPixel :: "png_image \<Rightarrow> u8 list \<Rightarrow> int \<Rightarrow> int \<Rightarrow> error + u8 list" where
  "DrawPixel img pixels x y =
     (if x \<ge> 0 \<and> x < int (width img) \<and> y \<ge> 0 \<and> y < int (height img)
      then let p = (y * int (width img) + x) * 2
           in and_then (store pixels p 0) (\<lambda>pixels'. store pixels' (p + 1) 0xff)
      else Inr pixels)"

subsection \<open>Initial order and shuffle\<close>

text \<open>The array \<^verbatim>\<open>stars\<close> after the two nested loops that fill it row by row.\<close>

definition init_stars :: "png_image \<Rightarrow> XY list" where
  "init_stars img = [(int x, int y). y \<leftarrow> [0..<height img], x \<leftarrow> [0..<width img]]"

text \<open>
  \<^verbatim>\<open>RandomInt(a, b)\<close> computes \<^verbatim>\<open>(int)(((double)rand() / (double)RAND_MAX) * (b - a) + a)\<close>.
  The generator \<^verbatim>\<open>rand\<close> belongs to the C library and the expression is evaluated in
  floating point, so the model takes \<^verbatim>\<open>rand\<close>'s result \<open>r\<close> and \<^verbatim>\<open>RAND_MAX\<close> as parameters and
  evaluates the expression over the reals; \<^verbatim>\<open>(int)\<close> truncates towards zero.
\<close>

definition RandomInt :: "nat \<Rightarrow> nat \<Rightarrow> int \<Rightarrow> int \<Rightarrow> int" where
  "RandomInt RAND_MAX r a b =
     (let v = (real r / real RAND_MAX) * real_of_int (b - a) + real_of_int a
      in if v \<ge> 0 then floor v else ceiling v)"

text \<open>
  The Fisher-Yates loop \<^verbatim>\<open>for(i = max_star_count - 1; i > 0; i--)\<close>, started at
  \<open>i = max_star_count - 1\<close>.  The parameter \<open>pick\<close> gives, for each \<open>i\<close>, the value that
  the one call \<^verbatim>\<open>RandomInt(0, i)\<close> of that iteration returns after \<^verbatim>\<open>srand(1)\<close>.
\<close>

fun shuffle :: "(int \<Rightarrow> int) \<Rightarrow> nat \<Rightarrow> XY list \<Rightarrow> error + XY list" where
  "shuffle pick 0 stars = Inr stars"
| "shuffle pick (Suc n) stars =
     (let i = Suc n;
          j = pick (int i)
      in if i < length stars \<and> 0 \<le> j \<and> j < int (length stars)
         then shuffle pick n ((stars[i := stars ! nat j])[nat j := stars ! i])
         else Inl OutOfBounds)"

subsection \<open>Visiting the candidates\<close>

text \<open>
  The state of the visiting loop: the array \<^verbatim>\<open>stars\<close>, \<^verbatim>\<open>star_count\<close> and the pixel buffer.
\<close>

record visit_state =
  st_stars :: "XY list"
  st_star_count :: nat
  st_pixels :: "u8 list"

text \<open>The body of the loop at index \<open>i\<close>.\<close>

definition visit_body :: "png_image \<Rightarrow> nat \<Rightarrow> visit_state \<Rightarrow> error + visit_state" where
  "visit_body img i s =
     (if i < length (st_stars s)
      then let (x, y) = st_stars s ! i
           in if IsStarLocation x y
              then and_then (IsEmptyRegion img (st_pixels s) x y) (\<lambda>empty.
                     if empty
                     then if st_star_count s < length (st_stars s)
                          then and_then (DrawPixel img (st_pixels s) x y) (\<lambda>pixels'.
                                 Inr \<lparr>st_stars = (st_stars s)[st_star_count s := (x, y)],
                                      st_star_count = st_star_count s + 1,
                                      st_pixels = pixels'\<rparr>)
                          else Inl OutOfBounds
                     else Inr s)
              else Inr s
      else Inl OutOfBounds)"

text \<open>\<^verbatim>\<open>for(i = star_count = 0; i < max_star_count; i++)\<close>, from index \<open>i\<close> on.\<close>

function visit :: "png_image \<Rightarrow> nat \<Rightarrow> nat \<Rightarrow> visit_state \<Rightarrow> error + visit_state" where
  "visit img max_star_count i s =
     (if i < max_star_count
      then and_then (visit_body img i s) (visit img max_star_count (i + 1))
      else Inr s)"
  by pat_completeness auto
termination
  by (relation "measure (\<lambda>(img, max_star_count, i, s). max_star_count - i)") auto

declare visit.simps [simp del]

text \<open>
  Generation: the part of \<^verbatim>\<open>main\<close> from the allocation of \<^verbatim>\<open>stars\<close> to the end of the
  visiting loop.  The Star Registry is the first \<^verbatim>\<open>star_count\<close> entries of \<^verbatim>\<open>stars\<close> in the result.
  (Before this part \<^verbatim>\<open>main\<close> has rejected every image narrower or lower than 10 pixels.)
\<close>

definition generate :: "(int \<Rightarrow> int) \<Rightarrow> png_image \<Rightarrow> u8 list \<Rightarrow> error + visit_state" where
  "generate pick img pixels0 =
     (let max_star_count = width img * height img
      in and_then (shuffle pick (max_star_count - 1) (init_stars img)) (\<lambda>shuffled.
           visit img max_star_count 0
             \<lparr>st_stars = shuffled, st_star_count = 0, st_pixels = pixels0\<rparr>))"

definition registry :: "visit_state \<Rightarrow> XY list" where
  "registry s = take (st_star_count s) (st_stars s)"

subsection \<open>Rendering a frame\<close>

text \<open>\<^verbatim>\<open>memset(pixels + k, 0, 2)\<close>.\<close>

definition memset2 :: "u8 list \<Rightarrow> int \<Rightarrow> error + u8 list" where
  "memset2 pixels k = and_then (store pixels k 0) (\<lambda>pixels'. store pixels' (k + 1) 0)"

text \<open>The body of the render loop for the star \<open>(x, y)\<close>.\<close>

definition render_star :: "png_image \<Rightarrow> int \<Rightarrow> u8 list \<Rightarrow> XY \<Rightarrow> error + u8 list" where
  "render_star img frame pixels star =
     (let (x, y) = star;
          j = phase x y frame
      in if j = 0 then memset2 pixels ((y * int (width img) + x) * 2)
         else if j = 1 \<or> j = 3 then Inr pixels
         else and_then (DrawPixel img pixels (x - 1) y) (\<lambda>p1.
              and_then (DrawPixel img p1 (x + 1) y) (\<lambda>p2.
              and_then (DrawPixel img p2 x (y - 1)) (\<lambda>p3.
              DrawPixel img p3 x (y + 1)))))"

text \<open>
  \<^verbatim>\<open>for(i = 0; i < star_count; i++)\<close> over the stars of the registry, in order.
\<close>

fun render :: "png_image \<Rightarrow> int \<Rightarrow> XY list \<Rightarrow> u8 list \<Rightarrow> error + u8 list" where
  "render img frame [] pixels = Inr pixels"
| "render img frame (star # rest) pixels =
     and_then (render_star img frame pixels star) (render img frame rest)"

subsection \<open>Vocabulary of the properties\<close>

text \<open>
  A canvas coordinate, and a pixel buffer of the size that the program allocates for a
  gray/alpha image (\<^verbatim>\<open>PNG_IMAGE_SIZE\<close>: two bytes for each of the \<open>width * height\<close> pixels).
\<close>

definition in_canvas :: "png_image \<Rightarrow> XY \<Rightarrow> bool" where
  "in_canvas img c \<longleftrightarrow>
     0 \<le> fst c \<and> fst c < int (width img) \<and> 0 \<le> snd c \<and> snd c < int (height img)"

definition well_formed :: "png_image \<Rightarrow> u8 list \<Rightarrow> bool" where
  "well_formed img pixels \<longleftrightarrow> length pixels = 2 * width img * height img"

text \<open>The two bytes of the pixel at a coordinate, and a star with its four neighbours.\<close>

definition gray_at :: "png_image \<Rightarrow> XY \<Rightarrow> nat" where
  "gray_at img c = nat ((snd c * int (width img) + fst c) * 2)"

definition alpha_at :: "png_image \<Rightarrow> XY \<Rightarrow> nat" where
  "alpha_at img c = nat ((snd c * int (width img) + fst c) * 2 + 1)"

definition cross :: "XY \<Rightarrow> XY list" where
  "cross c = [c, (fst c - 1, snd c), (fst c + 1, snd c), (fst c, snd c - 1), (fst c, snd c + 1)]"

text \<open>
  \<open>touches_only img cs p p'\<close>: the buffer \<open>p'\<close> differs from \<open>p\<close> at most in the bytes of
  pixels that are listed in \<open>cs\<close> and lie inside the canvas.
\<close>

definition touches_only :: "png_image \<Rightarrow> XY list \<Rightarrow> u8 list \<Rightarrow> u8 list \<Rightarrow> bool" where
  "touches_only img cs p p' \<longleftrightarrow>
     length p' = length p \<and>
     (\<forall>k < length p. p' ! k \<noteq> p ! k \<longrightarrow>
        (\<exists>c \<in> set cs. in_canvas img c \<and> (k = gray_at img c \<or> k = alpha_at img c)))"

text \<open>
  \<open>agree_or_kept p q p' q'\<close>: \<open>p'\<close> and \<open>q'\<close> come from \<open>p\<close> and \<open>q\<close> by the same writes: every
  byte either has the same value in \<open>p'\<close> and \<open>q'\<close> (it was written) or is left as it was
  in both.  An operation on the buffer is \<open>uniform\<close> when it fails on both of two buffers
  of the same length or relates them in this way.
\<close>

definition agree_or_kept :: "u8 list \<Rightarrow> u8 list \<Rightarrow> u8 list \<Rightarrow> u8 list \<Rightarrow> bool" where
  "agree_or_kept p q p' q' \<longleftrightarrow>
     length p' = length p \<and> length q' = length q \<and>
     (\<forall>k < length p. p' ! k = q' ! k \<or> (p' ! k = p ! k \<and> q' ! k = q ! k))"

definition uniform :: "(u8 list \<Rightarrow> error + u8 list) \<Rightarrow> bool" where
  "uniform op \<longleftrightarrow>
     (\<forall>p q. length p = length q \<longrightarrow>
        (\<exists>e. op p = Inl e \<and> op q = Inl e) \<or>
        (\<exists>p' q'. op p = Inr p' \<and> op q = Inr q' \<and> agree_or_kept p q p' q'))"

text \<open>The square of the Euclidean distance between two coordinates.\<close>

definition dist2 :: "XY \<Rightarrow> XY \<Rightarrow> int" where
  "dist2 a b = (fst a - fst b) * (fst a - fst b) + (snd a - snd b) * (snd a - snd b)"

text \<open>
  The state of the visiting loop after its first \<open>k\<close> iterations (indices \<open>0\<close> to \<open>k - 1\<close>).
\<close>

fun visit_upto :: "png_image \<Rightarrow> nat \<Rightarrow> visit_state \<Rightarrow> error + visit_state" where
  "visit_upto img 0 s = Inr s"
| "visit_upto img (Suc k) s = and_then (visit_upto img k s) (visit_body img k)"

text \<open>
  The registry as the specification describes it (sections 4.3, 4.4 and 9): a freshly
  built, append-only sequence.  The candidates are visited in order; a candidate that
  passes the hash test and the proximity test on the current canvas is appended and
  drawn, any other candidate is dropped.  The result is the registry and the canvas.
\<close>

fun append_registry :: "png_image \<Rightarrow> XY list \<Rightarrow> u8 list \<Rightarrow> error + (XY list \<times> u8 list)" where
  "append_registry img [] p = Inr ([], p)"
| "append_registry img (c # rest) p =
     (if IsStarLocation (fst c) (snd c)
      then and_then (IsEmptyRegion img p (fst c) (snd c)) (\<lambda>empty.
             if empty
             then and_then (DrawPixel img p (fst c) (snd c)) (\<lambda>p1.
                  and_then (append_registry img rest p1) (\<lambda>(reg, p2). Inr (c # reg, p2)))
             else append_registry img rest p)
      else append_registry img rest p)"

text \<open>Two pixel buffers with the same alpha channel (the bytes at odd indices).\<close>

definition same_alpha :: "u8 list \<Rightarrow> u8 list \<Rightarrow> bool" where
  "same_alpha p q \<longleftrightarrow> length p = length q \<and> (\<forall>k < length p. odd k \<longrightarrow> p ! k = q ! k)"

subsection \<open>A worked example\<close>

text \<open>
  A 10 by 26 canvas that is transparent except for its last row, and the same canvas
  after the stars \<open>(0, 0)\<close> and \<open>(8, 12)\<close> have been drawn.
\<close>

definition example_image :: png_image where
  "example_image = \<lparr>width = 10, height = 26\<rparr>"

definition example_pixels :: "u8 list" where
  "example_pixels = replicate 500 0 @ replicate 20 255"

definition example_pixels1 :: "u8 list" where
  "example_pixels1 = example_pixels[0 := 0, 1 := 255]"

definition example_pixels2 :: "u8 list" where
  "example_pixels2 = example_pixels1[256 := 0, 257 := 255]"

section \<open>Properties\<close>

subsection \<open>The phase of a star\<close>

lemma div5_mod4_shift: "((n::nat) + 20) div 5 mod 4 = n div 5 mod 4"
proof -
  have "(n + 20) div 5 = n div 5 + 4" by simp
  then show ?thesis by simp
qed

lemma mod20_div5: "((n::nat) mod 20) div 5 = (n div 5) mod 4"
proof -
  have "n mod 20 = n mod (5 * 4)" by simp
  also have "\<dots> = 5 * (n div 5 mod 4) + n mod 5" by (rule mod_mult2_eq)
  finally show ?thesis by simp
qed

lemma mod4_cases: "(n::nat) mod 4 = 0 \<or> n mod 4 = 1 \<or> n mod 4 = 2 \<or> n mod 4 = 3"
proof -
  have "n mod 4 < 4" by simp
  then show ?thesis by linarith
qed

lemma unat_frame: "0 \<le> f \<Longrightarrow> f < 2 ^ 31 \<Longrightarrow> unat (word_of_int f :: u32) = nat f"
  by (simp add: unsigned_of_int take_bit_int_eq_self)

lemma unat_shifted_hash: "unat (drop_bit 4 (h :: u32)) < 2 ^ 28"
proof -
  have "unat h < 2 ^ 32" using unsigned_less [of h] by simp
  then show ?thesis by (simp add: drop_bit_eq_div unat_div)
qed

lemma unat_phase_gen:
  fixes h4 w :: u32
  assumes "unat h4 < 2 ^ 28" "unat w < 2 ^ 31 + 20"
  shows "unat ((h4 + w) div 5 mod 4) = ((unat h4 + unat w) div 5) mod 4"
proof -
  have "unat h4 + unat w < 2 ^ LENGTH(32)" using assms by simp
  then have "unat (h4 + w) = unat h4 + unat w" by (simp only: unat_add_lem)
  then show ?thesis by (simp add: unat_div unat_mod)
qed

lemma phase_formula:
  assumes "0 \<le> f" "f < 2 ^ 31"
  shows "unat (phase x y f) = ((unat (drop_bit 4 (HashPair x y)) + nat f) div 5) mod 4"
  unfolding phase_def
  using unat_phase_gen [OF unat_shifted_hash, of "word_of_int f" "HashPair x y"] assms
  by (simp add: unat_frame)

lemma phase_shift:
  assumes "0 \<le> f" "f < 2 ^ 31"
  shows "phase x y (f + 20) = phase x y f"
proof -
  let ?h4 = "drop_bit 4 (HashPair x y)"
  let ?w = "word_of_int f :: u32"
  have w20: "unat (?w + 20) = nat f + 20"
  proof -
    have "unat ?w + unat (20 :: u32) < 2 ^ LENGTH(32)" using assms by (simp add: unat_frame)
    then have "unat (?w + 20) = unat ?w + unat (20 :: u32)" by (simp only: unat_add_lem)
    then show ?thesis using assms by (simp add: unat_frame)
  qed
  have "unat (phase x y (f + 20)) = ((unat ?h4 + (nat f + 20)) div 5) mod 4"
    unfolding phase_def
    using unat_phase_gen [OF unat_shifted_hash, of "?w + 20" "HashPair x y"] assms w20
    by simp
  also have "\<dots> = ((unat ?h4 + nat f) div 5) mod 4"
    using div5_mod4_shift [of "unat ?h4 + nat f"] by (simp add: add.assoc)
  also have "\<dots> = unat (phase x y f)" using phase_formula [OF assms] by simp
  finally show ?thesis by (simp only: word_unat_eq_iff)
qed

lemma glitter_of_unat:
  assumes "unat j = n mod 4"
  shows "glitter_of j = [Erase, Plain, Cross, Plain] ! (n mod 4)"
proof -
  have "n mod 4 = 0 \<or> n mod 4 = 1 \<or> n mod 4 = 2 \<or> n mod 4 = 3" by (rule mod4_cases)
  moreover have "j = of_nat (n mod 4)" using assms by (metis of_nat_unat ucast_id)
  ultimately show ?thesis by (auto simp: glitter_of_def)
qed

lemma phase_glitter:
  assumes "0 \<le> f" "f < 2 ^ 31"
  shows "glitter_of (phase x y f) =
    [Erase, Plain, Cross, Plain] ! (((unat (drop_bit 4 (HashPair x y)) + nat f) mod 20) div 5)"
proof -
  let ?s = "unat (drop_bit 4 (HashPair x y)) + nat f"
  have "(?s mod 20) div 5 = (?s div 5) mod 4" by (rule mod20_div5)
  then show ?thesis using glitter_of_unat [OF phase_formula [OF assms, of x y]] by simp
qed

text \<open>
  C4.  For every star coordinate \<open>(x, y)\<close> and every frame number \<open>f\<close> from 0 up to the
  largest \<^verbatim>\<open>int\<close>, the phase that the program computes in 32-bit unsigned arithmetic is
  \<open>(((Hash(x, y) >> 4) + f) div 5) mod 4\<close> over the natural numbers; it is the same 20
  frames later; and the action it selects depends only on \<open>((Hash(x, y) >> 4) + f) mod 20\<close>:
  erase for 0 to 4, plain for 5 to 9, cross for 10 to 14, plain for 15 to 19, so the
  phases follow each other in the order erase, plain, glitter, plain and each one lasts
  five consecutive frames.
\<close>

theorem phase_cycle:
  assumes "0 \<le> f" "f < 2 ^ 31"
  shows "unat (phase x y f) = ((unat (drop_bit 4 (HashPair x y)) + nat f) div 5) mod 4
       \<and> phase x y (f + 20) = phase x y f
       \<and> glitter_of (phase x y f) =
           [Erase, Plain, Cross, Plain] !
             (((unat (drop_bit 4 (HashPair x y)) + nat f) mod 20) div 5)"
  using phase_formula [OF assms] phase_shift [OF assms] phase_glitter [OF assms] by simp

theorem phase_cycle_witness:
  "(0::int) \<le> 7 \<and> (7::int) < 2 ^ 31
   \<and> unat (phase 22 0 7) = 3 \<and> phase 22 0 (7 + 20) = phase 22 0 7
   \<and> glitter_of (phase 22 0 7) = Plain"
  using phase_cycle [of 7 22 0]
  by (simp add: HashPair_def Hash_def int_bytes_def mix_def Let_def)

subsection \<open>The pixel buffer and the drawing operations\<close>

lemma and_then_Inr [simp]: "and_then (Inr v) f = f v"
  by (simp add: and_then_def)

lemma and_then_Inl [simp]: "and_then (Inl e) f = Inl e"
  by (simp add: and_then_def)

lemma pixel_index_bound:
  assumes "in_canvas img c"
  shows "0 \<le> (snd c * int (width img) + fst c) * 2"
    and "(snd c * int (width img) + fst c) * 2 + 1 < int (2 * width img * height img)"
proof -
  let ?W = "int (width img)" and ?H = "int (height img)"
  have x: "0 \<le> fst c" "fst c < ?W" and y: "0 \<le> snd c" "snd c + 1 \<le> ?H"
    using assms by (simp_all add: in_canvas_def)
  have "0 \<le> snd c * ?W" using y(1) by simp
  then show "0 \<le> (snd c * ?W + fst c) * 2" using x(1) by simp
  have "(snd c + 1) * ?W \<le> ?H * ?W" using y(2) by (rule mult_right_mono) simp
  then have "snd c * ?W + fst c < ?H * ?W" using x(2) by (simp add: algebra_simps)
  then show "(snd c * ?W + fst c) * 2 + 1 < int (2 * width img * height img)"
    by (simp add: algebra_simps)
qed

lemma store_ok:
  "0 \<le> k \<Longrightarrow> k < int (length p) \<Longrightarrow> store p k v = Inr (p[nat k := v])"
  by (simp add: store_def)

lemma DrawPixel_in:
  assumes "well_formed img p" "in_canvas img (x, y)"
  shows "DrawPixel img p x y = Inr (p[gray_at img (x, y) := 0, alpha_at img (x, y) := 0xff])"
proof -
  have b: "0 \<le> (y * int (width img) + x) * 2"
       "(y * int (width img) + x) * 2 + 1 < int (length p)"
    using pixel_index_bound [OF assms(2)] assms(1) by (simp_all add: well_formed_def)
  have c: "0 \<le> x \<and> x < int (width img) \<and> 0 \<le> y \<and> y < int (height img)"
    using assms(2) by (simp add: in_canvas_def)
  show ?thesis using b c
    by (simp add: DrawPixel_def Let_def store_def gray_at_def alpha_at_def)
qed

lemma DrawPixel_out:
  "\<not> in_canvas img (x, y) \<Longrightarrow> DrawPixel img p x y = Inr p"
  by (auto simp: DrawPixel_def in_canvas_def)

lemma memset2_in:
  assumes "well_formed img p" "in_canvas img (x, y)"
  shows "memset2 p ((y * int (width img) + x) * 2) =
         Inr (p[gray_at img (x, y) := 0, alpha_at img (x, y) := 0])"
proof -
  have b: "0 \<le> (y * int (width img) + x) * 2"
       "(y * int (width img) + x) * 2 + 1 < int (length p)"
    using pixel_index_bound [OF assms(2)] assms(1) by (simp_all add: well_formed_def)
  show ?thesis using b
    by (simp add: memset2_def store_def gray_at_def alpha_at_def)
qed


subsection \<open>Uniform operations\<close>

lemma uniform_Inr: "uniform Inr"
  by (simp add: uniform_def agree_or_kept_def)

lemma uniform_store: "uniform (\<lambda>p. store p k v)"
  by (auto simp: uniform_def agree_or_kept_def store_def nth_list_update)

lemma agree_or_kept_trans:
  assumes "agree_or_kept p q p1 q1" "agree_or_kept p1 q1 p2 q2"
  shows "agree_or_kept p q p2 q2"
  using assms unfolding agree_or_kept_def by (metis (no_types, lifting))

lemma uniform_bind:
  assumes f: "uniform f" and g: "uniform g"
  shows "uniform (\<lambda>p. and_then (f p) g)"
  unfolding uniform_def
proof (intro allI impI)
  fix p q :: "u8 list"
  assume len: "length p = length q"
  from f len consider
    (err) e where "f p = Inl e" "f q = Inl e"
  | (ok) p1 q1 where "f p = Inr p1" "f q = Inr q1" "agree_or_kept p q p1 q1"
    unfolding uniform_def by blast
  then show "(\<exists>e. and_then (f p) g = Inl e \<and> and_then (f q) g = Inl e) \<or>
        (\<exists>p' q'. and_then (f p) g = Inr p' \<and> and_then (f q) g = Inr q' \<and>
           agree_or_kept p q p' q')"
  proof cases
    case err
    then show ?thesis by simp
  next
    case ok
    then have len1: "length p1 = length q1" using len by (simp add: agree_or_kept_def)
    from g len1 consider
      (err2) e where "g p1 = Inl e" "g q1 = Inl e"
    | (ok2) p2 q2 where "g p1 = Inr p2" "g q1 = Inr q2" "agree_or_kept p1 q1 p2 q2"
      unfolding uniform_def by blast
    then show ?thesis
    proof cases
      case err2
      then show ?thesis using ok by simp
    next
      case ok2
      then show ?thesis using ok agree_or_kept_trans [OF ok(3) ok2(3)] by simp
    qed
  qed
qed

lemma uniform_if: "uniform f \<Longrightarrow> uniform g \<Longrightarrow> uniform (\<lambda>p. if b then f p else g p)"
  by (cases b) simp_all

lemma uniformD:
  assumes "uniform op" "length p = length q" "op p = Inr p'"
  shows "\<exists>q'. op q = Inr q' \<and> agree_or_kept p q p' q'"
proof -
  from assms(1,2) have "(\<exists>e. op p = Inl e \<and> op q = Inl e) \<or>
        (\<exists>p' q'. op p = Inr p' \<and> op q = Inr q' \<and> agree_or_kept p q p' q')"
    unfolding uniform_def by blast
  then show ?thesis using assms(3) by auto
qed

lemma uniform_DrawPixel: "uniform (\<lambda>p. DrawPixel img p x y)"
  unfolding DrawPixel_def Let_def
  by (intro uniform_if uniform_bind uniform_store uniform_Inr)

lemma uniform_memset2: "uniform (\<lambda>p. memset2 p k)"
  unfolding memset2_def
  by (intro uniform_bind uniform_store)

lemma uniform_render_star: "uniform (\<lambda>p. render_star img frame p star)"
  unfolding render_star_def Let_def split_def
  by (intro uniform_if uniform_bind uniform_DrawPixel uniform_memset2 uniform_Inr)

lemma uniform_render: "uniform (render img frame stars)"
proof (induction stars)
  case Nil
  have "render img frame [] = Inr" by (rule ext) simp
  then show ?case by (simp add: uniform_Inr)
next
  case (Cons star rest)
  have "render img frame (star # rest) =
        (\<lambda>p. and_then (render_star img frame p star) (render img frame rest))"
    by (rule ext) simp
  then show ?case using uniform_bind [OF uniform_render_star Cons.IH] by simp
qed

lemma render_idem:
  "and_then (render img frame stars p) (render img frame stars) = render img frame stars p"
proof (cases "render img frame stars p")
  case (Inl e)
  then show ?thesis by simp
next
  case (Inr p')
  have u: "uniform (render img frame stars)" by (rule uniform_render)
  from uniformD [OF u refl Inr] Inr have "agree_or_kept p p p' p'" by auto
  then have len: "length p = length p'" by (simp add: agree_or_kept_def)
  from uniformD [OF u len Inr] obtain q' where q': "render img frame stars p' = Inr q'"
    and a: "agree_or_kept p p' p' q'"
    by blast
  have "q' = p'"
  proof (rule nth_equalityI)
    show "length q' = length p'" using a by (simp add: agree_or_kept_def)
  next
    fix k assume "k < length q'"
    then have "k < length p" using a len by (simp add: agree_or_kept_def)
    then show "q' ! k = p' ! k" using a unfolding agree_or_kept_def by metis
  qed
  then show ?thesis using Inr q' by simp
qed


subsection \<open>Where the renderer writes\<close>

lemma touches_only_refl: "touches_only img cs p p"
  by (simp add: touches_only_def)

lemma touches_only_update:
  assumes "in_canvas img c" "c \<in> set cs"
  shows "touches_only img cs p (p[gray_at img c := a, alpha_at img c := b])"
  unfolding touches_only_def
proof (intro conjI allI impI)
  show "length (p[gray_at img c := a, alpha_at img c := b]) = length p" by simp
next
  fix k assume "k < length p" and ne: "p[gray_at img c := a, alpha_at img c := b] ! k \<noteq> p ! k"
  have "k = gray_at img c \<or> k = alpha_at img c"
  proof (rule ccontr)
    assume "\<not> (k = gray_at img c \<or> k = alpha_at img c)"
    then have "p[gray_at img c := a, alpha_at img c := b] ! k = p ! k" by simp
    then show False using ne by simp
  qed
  then show "\<exists>c\<in>set cs. in_canvas img c \<and> (k = gray_at img c \<or> k = alpha_at img c)"
    using assms by blast
qed

lemma touches_only_trans:
  assumes "touches_only img cs p p1" "touches_only img cs' p1 p2"
    and "set cs \<subseteq> set ds" "set cs' \<subseteq> set ds"
  shows "touches_only img ds p p2"
  unfolding touches_only_def
proof (intro conjI allI impI)
  show "length p2 = length p" using assms(1,2) by (simp add: touches_only_def)
next
  fix k assume k: "k < length p" and ne: "p2 ! k \<noteq> p ! k"
  have k1: "k < length p1" using k assms(1) by (simp add: touches_only_def)
  show "\<exists>c\<in>set ds. in_canvas img c \<and> (k = gray_at img c \<or> k = alpha_at img c)"
  proof (cases "p1 ! k = p ! k")
    case True
    then have "p2 ! k \<noteq> p1 ! k" using ne by simp
    then obtain c where "c \<in> set cs'" "in_canvas img c" "k = gray_at img c \<or> k = alpha_at img c"
      using assms(2) k1 unfolding touches_only_def by blast
    then show ?thesis using assms(4) by blast
  next
    case False
    then obtain c where "c \<in> set cs" "in_canvas img c" "k = gray_at img c \<or> k = alpha_at img c"
      using assms(1) k unfolding touches_only_def by blast
    then show ?thesis using assms(3) by blast
  qed
qed

lemma DrawPixel_touch:
  assumes "well_formed img p"
  shows "\<exists>p'. DrawPixel img p x y = Inr p' \<and> well_formed img p' \<and>
              touches_only img [(x, y)] p p'"
proof (cases "in_canvas img (x, y)")
  case True
  show ?thesis
    using DrawPixel_in [OF assms True] assms touches_only_update [OF True, of "[(x, y)]"]
    by (simp add: well_formed_def)
next
  case False
  then show ?thesis using assms by (simp add: DrawPixel_out touches_only_refl)
qed

lemma memset2_touch:
  assumes "well_formed img p" "in_canvas img (x, y)"
  shows "\<exists>p'. memset2 p ((y * int (width img) + x) * 2) = Inr p' \<and> well_formed img p' \<and>
              touches_only img [(x, y)] p p'"
  using memset2_in [OF assms] assms(1) touches_only_update [OF assms(2), of "[(x, y)]"]
  by (simp add: well_formed_def)

lemma render_star_touch:
  assumes wf: "well_formed img p" and inb: "in_canvas img star"
  shows "\<exists>p'. render_star img frame p star = Inr p' \<and> well_formed img p' \<and>
              touches_only img (cross star) p p'"
proof -
  obtain x y where star: "star = (x, y)" by (cases star)
  let ?j = "phase x y frame"
  consider (erase) "?j = 0" | (plain) "?j \<noteq> 0" "?j = 1 \<or> ?j = 3"
    | (glitter) "?j \<noteq> 0" "\<not> (?j = 1 \<or> ?j = 3)" by blast
  then show ?thesis
  proof cases
    case erase
    from memset2_touch [OF wf inb [unfolded star]] obtain p' where
      p': "memset2 p ((y * int (width img) + x) * 2) = Inr p'" "well_formed img p'"
          "touches_only img [(x, y)] p p'" by blast
    have "touches_only img (cross star) p p'"
      by (rule touches_only_trans [OF p'(3) touches_only_refl [of img "[]"]])
         (simp_all add: cross_def star)
    then show ?thesis using erase p' by (simp add: render_star_def star)
  next
    case plain
    then show ?thesis using wf by (auto simp: render_star_def star touches_only_refl)
  next
    case glitter
    from DrawPixel_touch [OF wf, of "x - 1" y] obtain p1 where
      p1: "DrawPixel img p (x - 1) y = Inr p1" "well_formed img p1"
          "touches_only img [(x - 1, y)] p p1" by blast
    from DrawPixel_touch [OF p1(2), of "x + 1" y] obtain p2 where
      p2: "DrawPixel img p1 (x + 1) y = Inr p2" "well_formed img p2"
          "touches_only img [(x + 1, y)] p1 p2" by blast
    from DrawPixel_touch [OF p2(2), of x "y - 1"] obtain p3 where
      p3: "DrawPixel img p2 x (y - 1) = Inr p3" "well_formed img p3"
          "touches_only img [(x, y - 1)] p2 p3" by blast
    from DrawPixel_touch [OF p3(2), of x "y + 1"] obtain p4 where
      p4: "DrawPixel img p3 x (y + 1) = Inr p4" "well_formed img p4"
          "touches_only img [(x, y + 1)] p3 p4" by blast
    have t2: "touches_only img (cross star) p p2"
      by (rule touches_only_trans [OF p1(3) p2(3)]) (simp_all add: cross_def star)
    have t3: "touches_only img (cross star) p p3"
      by (rule touches_only_trans [OF t2 p3(3)]) (simp_all add: cross_def star)
    have t4: "touches_only img (cross star) p p4"
      by (rule touches_only_trans [OF t3 p4(3)]) (simp_all add: cross_def star)
    show ?thesis using glitter p1 p2 p3 p4 t4 by (simp add: render_star_def star)
  qed
qed

lemma render_touch:
  assumes "well_formed img p" "\<forall>c \<in> set stars. in_canvas img c"
  shows "\<exists>p'. render img frame stars p = Inr p' \<and> well_formed img p' \<and>
              touches_only img (concat (map cross stars)) p p'"
  using assms
proof (induction stars arbitrary: p)
  case Nil
  then show ?case by (simp add: touches_only_refl)
next
  case (Cons star rest)
  from render_star_touch [OF Cons.prems(1), of star frame] Cons.prems(2) obtain p1 where
    p1: "render_star img frame p star = Inr p1" "well_formed img p1"
        "touches_only img (cross star) p p1" by auto
  from Cons.IH [OF p1(2)] Cons.prems(2) obtain p2 where
    p2: "render img frame rest p1 = Inr p2" "well_formed img p2"
        "touches_only img (concat (map cross rest)) p1 p2" by auto
  have "touches_only img (concat (map cross (star # rest))) p p2"
    by (rule touches_only_trans [OF p1(3) p2(3)]) auto
  then show ?case using p1 p2 by simp
qed

subsection \<open>Rendering: claims C5, C7 and C3\<close>

lemma phase_examples: "phase 8 0 0 = 0" "phase 8 0 1 = 1" "phase 0 0 10 = 2"
  by (simp_all add: phase_def HashPair_def Hash_def int_bytes_def mix_def Let_def)

text \<open>
  C5.  On a pixel buffer of the image's size and for a registry of canvas coordinates,
  the render loop performs no access outside the buffer (it returns a buffer, not
  \<open>OutOfBounds\<close>), whatever the frame number, and the only bytes whose value it changes
  belong to pixels inside the canvas that are a star or one of its four neighbours:
  the neighbours that fall outside the canvas are skipped.
\<close>

theorem render_in_bounds:
  assumes "well_formed img p" "\<forall>c \<in> set stars. in_canvas img c"
  shows "\<exists>p'. render img frame stars p = Inr p' \<and>
              touches_only img (concat (map cross stars)) p p'"
  using render_touch [OF assms] by blast

theorem render_in_bounds_witness:
  "well_formed \<lparr>width = 10, height = 10\<rparr> (replicate 200 0)
   \<and> in_canvas \<lparr>width = 10, height = 10\<rparr> (0, 0)
   \<and> render \<lparr>width = 10, height = 10\<rparr> 10 [(0, 0)] (replicate 200 0) =
         Inr ((replicate 200 0)[2 := 0, 3 := 255, 20 := 0, 21 := 255])
   \<and> (\<exists>p'. render \<lparr>width = 10, height = 10\<rparr> 10 [(0, 0)] (replicate 200 0) = Inr p' \<and>
          touches_only \<lparr>width = 10, height = 10\<rparr> (concat (map cross [(0, 0)]))
            (replicate 200 0) p')"
proof -
  have wf: "well_formed \<lparr>width = 10, height = 10\<rparr> (replicate 200 0)"
    by (simp add: well_formed_def)
  have inb: "\<forall>c \<in> set [(0, 0)]. in_canvas \<lparr>width = 10, height = 10\<rparr> c"
    by (simp add: in_canvas_def)
  have r: "render \<lparr>width = 10, height = 10\<rparr> 10 [(0, 0)] (replicate 200 0) =
         Inr ((replicate 200 0)[2 := 0, 3 := 255, 20 := 0, 21 := 255])"
    by (simp add: phase_examples render_star_def DrawPixel_def store_def and_then_def)
  show ?thesis using wf inb r render_in_bounds [OF wf inb, of 10] by simp
qed

text \<open>
  C7.  Rendering twice in a row with the same frame number gives the same result as
  rendering once, for every buffer, every list of stars and every frame number (an
  \<open>OutOfBounds\<close> of the first call is the result of both sides).
\<close>

theorem render_idempotent:
  "and_then (render img frame stars p) (render img frame stars) = render img frame stars p"
  by (rule render_idem)

theorem render_idempotent_witness:
  "render \<lparr>width = 10, height = 10\<rparr> 10 [(0, 0)] (replicate 200 0) =
     Inr ((replicate 200 0)[2 := 0, 3 := 255, 20 := 0, 21 := 255])
   \<and> render \<lparr>width = 10, height = 10\<rparr> 10 [(0, 0)]
         ((replicate 200 0)[2 := 0, 3 := 255, 20 := 0, 21 := 255]) =
     Inr ((replicate 200 0)[2 := 0, 3 := 255, 20 := 0, 21 := 255])"
proof -
  have r: "render \<lparr>width = 10, height = 10\<rparr> 10 [(0, 0)] (replicate 200 0) =
         Inr ((replicate 200 0)[2 := 0, 3 := 255, 20 := 0, 21 := 255])"
    by (simp add: phase_examples render_star_def DrawPixel_def store_def and_then_def)
  show ?thesis
    using r render_idempotent [of "\<lparr>width = 10, height = 10\<rparr>" 10 "[(0, 0)]" "replicate 200 0"]
    by simp
qed




subsection \<open>The proximity test at the edges: claim C1\<close>

text \<open>
  C1 says that the proximity test reads only pixels inside the canvas.  The loops of
  \<^verbatim>\<open>IsEmptyRegion\<close> run up to \<^verbatim>\<open>Min(y + RADIUS, image->height)\<close> and
  \<^verbatim>\<open>Min(x + RADIUS, image->width)\<close> inclusive, one row and one column too far.
  \<^item> On the fully transparent 10 by 10 canvas the eligible candidate \<open>(0, 0)\<close> makes the
    test reach row 10 and read \<^verbatim>\<open>pixels[201]\<close>, beyond the 200 bytes of the buffer.
  \<^item> On the 24 by 13 canvas whose only opaque pixel is \<open>(0, 1)\<close> (alpha at byte 49), the
    eligible candidate \<open>(22, 0)\<close> is rejected: column 24 of row 0 is byte 49, so the pixel
    \<open>(0, 1)\<close>, at distance 22, is taken for the neighbour \<open>(24, 0)\<close>.  On the same canvas
    without that pixel the candidate passes.
\<close>

theorem IsEmptyRegion_leaves_canvas:
  "IsStarLocation 0 0
   \<and> IsEmptyRegion \<lparr>width = 10, height = 10\<rparr> (replicate 200 0) 0 0 = Inl OutOfBounds
   \<and> IsStarLocation 22 0
   \<and> alpha_at \<lparr>width = 24, height = 13\<rparr> (0, 1) = 49
   \<and> dist2 (22, 0) (0, 1) > RADIUS * RADIUS
   \<and> IsEmptyRegion \<lparr>width = 24, height = 13\<rparr> ((replicate 624 0)[49 := 255]) 22 0 = Inr False
   \<and> IsEmptyRegion \<lparr>width = 24, height = 13\<rparr> (replicate 624 0) 22 0 = Inr True"
  by code_simp

subsection \<open>The shuffle: claim C8\<close>

lemma RandomInt_range:
  assumes "0 < RAND_MAX" "r \<le> RAND_MAX" "a \<le> b"
  shows "a \<le> RandomInt RAND_MAX r a b \<and> RandomInt RAND_MAX r a b \<le> b"
proof -
  define t where "t = real r / real RAND_MAX"
  define v where "v = t * real_of_int (b - a) + real_of_int a"
  have t: "0 \<le> t" "t \<le> 1" using assms(1,2) by (simp_all add: t_def)
  have d: "0 \<le> real_of_int (b - a)" using assms(3) by simp
  have "0 \<le> t * real_of_int (b - a)" using t(1) d by (rule mult_nonneg_nonneg)
  then have lo: "real_of_int a \<le> v" by (simp add: v_def)
  have "t * real_of_int (b - a) \<le> 1 * real_of_int (b - a)"
    using t(2) d by (rule mult_right_mono)
  then have hi: "v \<le> real_of_int b" by (simp add: v_def)
  have "a \<le> floor v" using lo by (simp add: le_floor_iff)
  moreover have "floor v \<le> b" using hi by (simp add: floor_le_iff)
  moreover have "a \<le> ceiling v" using lo by (simp add: le_ceiling_iff)
  moreover have "ceiling v \<le> b" using hi by (simp add: ceiling_le_iff)
  moreover have "RandomInt RAND_MAX r a b = (if v \<ge> 0 then floor v else ceiling v)"
    by (simp add: RandomInt_def Let_def v_def t_def)
  ultimately show ?thesis by simp
qed

lemma shuffle_mset:
  assumes "n = 0 \<or> n < length stars" "\<forall>i. 0 < i \<longrightarrow> 0 \<le> pick i \<and> pick i \<le> i"
  shows "\<exists>xs. shuffle pick n stars = Inr xs \<and> mset xs = mset stars"
  using assms(1)
proof (induction n arbitrary: stars)
  case 0
  then show ?case by simp
next
  case (Suc n)
  let ?i = "Suc n" and ?j = "pick (int (Suc n))"
  have i: "?i < length stars" using Suc.prems by simp
  have j: "0 \<le> ?j" "?j \<le> int ?i" using assms(2) by simp_all
  then have jl: "nat ?j < length stars" "?j < int (length stars)" using i by linarith+
  let ?s = "(stars[?i := stars ! nat ?j])[nat ?j := stars ! ?i]"
  have m: "mset ?s = mset stars" using i jl(1) by (simp add: mset_swap)
  have "n = 0 \<or> n < length ?s" using i by simp
  from Suc.IH [OF this] obtain xs where "shuffle pick n ?s = Inr xs" "mset xs = mset ?s"
    by blast
  then show ?case using i j jl m by (simp add: Let_def)
qed

lemma length_init_stars: "length (init_stars img) = width img * height img"
  by (simp add: init_stars_def length_concat sum_list_triv o_def)

lemma set_init_stars: "set (init_stars img) = {c. in_canvas img c}"
proof (rule set_eqI)
  fix c :: XY
  obtain a b where c: "c = (a, b)" by (cases c)
  have "c \<in> set (init_stars img) \<longleftrightarrow> (\<exists>y < height img. \<exists>x < width img. a = int x \<and> b = int y)"
    by (fastforce simp: init_stars_def c)
  also have "\<dots> \<longleftrightarrow> in_canvas img c"
  proof
    assume "\<exists>y < height img. \<exists>x < width img. a = int x \<and> b = int y"
    then show "in_canvas img c" by (auto simp: in_canvas_def c)
  next
    assume "in_canvas img c"
    then have "0 \<le> a" "a < int (width img)" "0 \<le> b" "b < int (height img)"
      by (simp_all add: in_canvas_def c)
    then have "nat b < height img" "nat a < width img" "a = int (nat a)" "b = int (nat b)"
      by linarith+
    then show "\<exists>y < height img. \<exists>x < width img. a = int x \<and> b = int y" by blast
  qed
  finally show "c \<in> set (init_stars img) \<longleftrightarrow> c \<in> {c. in_canvas img c}" by simp
qed

lemma distinct_rows:
  "distinct (concat (map (\<lambda>y. map (\<lambda>x. (int x, int y)) [0..<w]) [0..<n]))"
proof (induction n)
  case 0
  then show ?case by simp
next
  case (Suc n)
  have row: "distinct (map (\<lambda>x. (int x, int n)) [0..<w])"
    by (simp add: distinct_map inj_on_def)
  have disj: "set (concat (map (\<lambda>y. map (\<lambda>x. (int x, int y)) [0..<w]) [0..<n])) \<inter>
              set (map (\<lambda>x. (int x, int n)) [0..<w]) = {}"
    by auto
  show ?case using Suc.IH row disj by simp
qed

lemma distinct_init_stars: "distinct (init_stars img)"
  unfolding init_stars_def by (rule distinct_rows)


lemma shuffle_canvas:
  assumes "\<forall>i. 0 < i \<longrightarrow> 0 \<le> pick i \<and> pick i \<le> i"
  shows "\<exists>xs. shuffle pick (width img * height img - 1) (init_stars img) = Inr xs \<and>
              mset xs = mset (init_stars img) \<and> distinct xs \<and>
              set xs = {c. in_canvas img c}"
proof -
  have "width img * height img - 1 = 0 \<or>
        width img * height img - 1 < length (init_stars img)"
    unfolding length_init_stars by linarith
  from shuffle_mset [OF this assms] obtain xs where
    xs: "shuffle pick (width img * height img - 1) (init_stars img) = Inr xs"
        "mset xs = mset (init_stars img)" by blast
  have "distinct xs" using xs(2) distinct_init_stars [of img] by (metis mset_eq_imp_distinct_iff)
  moreover have "set xs = {c. in_canvas img c}"
    using xs(2) set_init_stars [of img] by (metis mset_eq_setD)
  ultimately show ?thesis using xs by blast
qed

text \<open>
  C8.  If every swap index lies in \<open>[0, i]\<close> (as \<open>RandomInt_range\<close> shows for the value of
  \<^verbatim>\<open>RandomInt(0, i)\<close> computed over the reals), the shuffle of the row-major array performs
  no access outside the array and returns a permutation of it: every coordinate of the
  canvas occurs exactly once.
\<close>

theorem shuffle_permutation:
  assumes "\<forall>i. 0 < i \<longrightarrow> 0 \<le> pick i \<and> pick i \<le> i"
  shows "\<exists>xs. shuffle pick (width img * height img - 1) (init_stars img) = Inr xs \<and>
              mset xs = mset (init_stars img) \<and> distinct xs \<and>
              set xs = {c. in_canvas img c}"
  using shuffle_canvas [OF assms] .

theorem shuffle_permutation_witness:
  "shuffle (\<lambda>i. i div 2) (width \<lparr>width = 3, height = 2\<rparr> * height \<lparr>width = 3, height = 2\<rparr> - 1)
      (init_stars \<lparr>width = 3, height = 2\<rparr>) =
     Inr [(1, 1), (0, 0), (0, 1), (1, 0), (2, 1), (2, 0)]
   \<and> (\<exists>xs. shuffle (\<lambda>i. i div 2)
            (width \<lparr>width = 3, height = 2\<rparr> * height \<lparr>width = 3, height = 2\<rparr> - 1)
            (init_stars \<lparr>width = 3, height = 2\<rparr>) = Inr xs \<and>
          mset xs = mset (init_stars \<lparr>width = 3, height = 2\<rparr>) \<and> distinct xs \<and>
          set xs = {c. in_canvas \<lparr>width = 3, height = 2\<rparr> c})"
proof -
  have h: "\<forall>i::int. 0 < i \<longrightarrow> 0 \<le> i div 2 \<and> i div 2 \<le> i"
  proof (intro allI impI conjI)
    fix i :: int assume "0 < i"
    then show "0 \<le> i div 2" by simp
    show "i div 2 \<le> i" using \<open>0 < i\<close> by linarith
  qed
  have e: "shuffle (\<lambda>i. i div 2)
      (width \<lparr>width = 3, height = 2\<rparr> * height \<lparr>width = 3, height = 2\<rparr> - 1)
      (init_stars \<lparr>width = 3, height = 2\<rparr>) =
     Inr [(1, 1), (0, 0), (0, 1), (1, 0), (2, 1), (2, 0)]"
    by code_simp
  show ?thesis
    using e shuffle_permutation [of "\<lambda>i. i div 2" "\<lparr>width = 3, height = 2\<rparr>", OF h]
    by blast
qed

subsection \<open>The visiting loop and the append-only registry\<close>

lemma and_then_assoc:
  "and_then (and_then r f) g = and_then r (\<lambda>v. and_then (f v) g)"
  by (cases r) simp_all

lemma and_then_Inr_id: "and_then r Inr = r"
  by (cases r) simp_all

lemma visit_continue:
  "i \<le> n \<Longrightarrow> and_then (visit_upto img i s) (visit img n i) = visit img n 0 s"
proof (induction i)
  case 0
  then show ?case by simp
next
  case (Suc i)
  have "visit img n i = (\<lambda>s'. and_then (visit_body img i s') (visit img n (Suc i)))"
    using Suc.prems by (intro ext) (simp add: visit.simps [of img n i])
  then show ?case using Suc by (simp add: and_then_assoc)
qed

lemma visit_eq_upto: "visit img n 0 s = visit_upto img n s"
proof -
  have "visit img n n = Inr" by (intro ext) (simp add: visit.simps [of img n n])
  then show ?thesis using visit_continue [of n n img s] by (simp add: and_then_Inr_id)
qed

lemma select_snoc:
  "append_registry img (cs @ [c]) p =
     and_then (append_registry img cs p) (\<lambda>(reg, p1).
       and_then (append_registry img [c] p1) (\<lambda>(r, p2). Inr (reg @ r, p2)))"
proof (induction cs arbitrary: p)
  case Nil
  show ?case by (cases "append_registry img [c] p") (auto simp del: append_registry.simps(2))
next
  case (Cons d cs)
  show ?case
  proof (cases "IsStarLocation (fst d) (snd d)")
    case False
    then show ?thesis using Cons.IH by simp
  next
    case True
    show ?thesis
    proof (cases "IsEmptyRegion img p (fst d) (snd d)")
      case (Inl e)
      then show ?thesis using True by simp
    next
      case (Inr empty)
      show ?thesis
      proof (cases empty)
        case False
        then show ?thesis using True Inr Cons.IH by simp
      next
        case yes: True
        show ?thesis
        proof (cases "DrawPixel img p (fst d) (snd d)")
          case (Inl e)
          then show ?thesis using True Inr yes by simp
        next
          case p1: (Inr p1)
          show ?thesis
          proof (cases "append_registry img cs p1")
            case (Inl e)
            then show ?thesis using True Inr yes p1 Cons.IH [of p1] by simp
          next
            case r: (Inr r)
            obtain reg p2 where r2: "r = (reg, p2)" by (cases r)
            show ?thesis
            proof (cases "append_registry img [c] p2")
              case (Inl e)
              then show ?thesis using True Inr yes p1 r r2 Cons.IH [of p1]
                by (simp del: append_registry.simps(2) add: append_registry.simps(2) [of img d])
            next
              case t: (Inr t)
              obtain r3 p3 where "t = (r3, p3)" by (cases t)
              then show ?thesis using True Inr yes p1 r r2 t Cons.IH [of p1]
                by (simp del: append_registry.simps(2) add: append_registry.simps(2) [of img d])
            qed
          qed
        qed
      qed
    qed
  qed
qed


lemma select_single:
  "append_registry img [c] p =
     (if IsStarLocation (fst c) (snd c)
      then and_then (IsEmptyRegion img p (fst c) (snd c)) (\<lambda>empty.
             if empty
             then and_then (DrawPixel img p (fst c) (snd c)) (\<lambda>p1. Inr ([c], p1))
             else Inr ([], p))
      else Inr ([], p))"
  by (simp cong: if_cong)

lemma visit_body_step:
  assumes k: "k < length (st_stars s)" and n: "st_star_count s \<le> k"
  shows "case visit_body img k s of
           Inl e \<Rightarrow> append_registry img [st_stars s ! k] (st_pixels s) = Inl e
         | Inr s' \<Rightarrow>
             (\<exists>r. append_registry img [st_stars s ! k] (st_pixels s) = Inr (r, st_pixels s') \<and>
                  take (st_star_count s') (st_stars s') =
                    take (st_star_count s) (st_stars s) @ r \<and>
                  st_star_count s' \<le> Suc k \<and>
                  length (st_stars s') = length (st_stars s) \<and>
                  drop (Suc k) (st_stars s') = drop (Suc k) (st_stars s))"
proof -
  obtain x y where c: "st_stars s ! k = (x, y)" by (cases "st_stars s ! k")
  have lt: "st_star_count s < length (st_stars s)" using k n by simp
  show ?thesis
  proof (cases "IsStarLocation x y")
    case False
    then show ?thesis using k c n by (simp add: visit_body_def select_single)
  next
    case True
    show ?thesis
    proof (cases "IsEmptyRegion img (st_pixels s) x y")
      case (Inl e)
      then show ?thesis using k c True n by (simp add: visit_body_def select_single)
    next
      case (Inr empty)
      show ?thesis
      proof (cases empty)
        case False
        then show ?thesis using k c True Inr n by (simp add: visit_body_def select_single)
      next
        case yes: True
        show ?thesis
        proof (cases "DrawPixel img (st_pixels s) x y")
          case (Inl e)
          then show ?thesis using k c True Inr yes lt n
            by (simp add: visit_body_def select_single)
        next
          case p1: (Inr p1)
          have t: "take (Suc (st_star_count s)) ((st_stars s)[st_star_count s := (x, y)]) =
                   take (st_star_count s) (st_stars s) @ [(x, y)]"
            using lt by (simp add: take_Suc_conv_app_nth)
          have d: "drop (Suc k) ((st_stars s)[st_star_count s := (x, y)]) =
                   drop (Suc k) (st_stars s)"
            using n by simp
          show ?thesis using k c True Inr yes lt p1 t d n
            by (simp add: visit_body_def select_single)
        qed
      qed
    qed
  qed
qed

lemma visit_refines:
  assumes "k \<le> length cands"
  shows "case visit_upto img k \<lparr>st_stars = cands, st_star_count = 0, st_pixels = p0\<rparr> of
           Inl e \<Rightarrow> append_registry img (take k cands) p0 = Inl e
         | Inr s \<Rightarrow>
             st_star_count s \<le> k \<and> length (st_stars s) = length cands \<and>
             drop k (st_stars s) = drop k cands \<and>
             append_registry img (take k cands) p0 =
               Inr (take (st_star_count s) (st_stars s), st_pixels s)"
  using assms
proof (induction k)
  case 0
  then show ?case by simp
next
  case (Suc k)
  let ?s0 = "\<lparr>st_stars = cands, st_star_count = 0, st_pixels = p0\<rparr>"
  have k: "k < length cands" using Suc.prems by simp
  have tk: "take (Suc k) cands = take k cands @ [cands ! k]"
    using k by (simp add: take_Suc_conv_app_nth)
  show ?case
  proof (cases "visit_upto img k ?s0")
    case (Inl e)
    then show ?thesis using Suc.IH k by (simp add: tk select_snoc)
  next
    case (Inr s)
    then have inv: "st_star_count s \<le> k" "length (st_stars s) = length cands"
      "drop k (st_stars s) = drop k cands"
      "append_registry img (take k cands) p0 = Inr (take (st_star_count s) (st_stars s), st_pixels s)"
      using Suc.IH k by simp_all
    have ks: "k < length (st_stars s)" using k inv(2) by simp
    have "st_stars s ! k = hd (drop k (st_stars s))" using ks by (simp add: hd_drop_conv_nth)
    also have "\<dots> = cands ! k" using k inv(3) by (simp add: hd_drop_conv_nth)
    finally have ck: "st_stars s ! k = cands ! k" .
    have dk: "drop (Suc k) (st_stars s) = drop (Suc k) cands"
      using inv(3) by (metis drop_Suc tl_drop)
    show ?thesis
    proof (cases "visit_body img k s")
      case e: (Inl e)
      then show ?thesis using Inr inv(4) visit_body_step [OF ks inv(1), of img] ck
        by (simp add: tk select_snoc)
    next
      case s': (Inr s')
      then show ?thesis using Inr inv visit_body_step [OF ks inv(1), of img] ck dk
        by (auto simp: tk select_snoc)
    qed
  qed
qed

subsection \<open>A candidate near an opaque pixel is rejected\<close>

lemma sq_le_radius:
  fixes d :: int
  assumes "d * d \<le> RADIUS * RADIUS"
  shows "- RADIUS \<le> d \<and> d \<le> RADIUS"
proof (rule ccontr)
  assume "\<not> (- RADIUS \<le> d \<and> d \<le> RADIUS)"
  then have "13 \<le> d \<or> 13 \<le> - d" by (simp add: RADIUS_def) linarith
  then have "13 * 13 \<le> d * d"
  proof
    assume "13 \<le> d"
    then show ?thesis by (intro mult_mono) simp_all
  next
    assume "13 \<le> - d"
    then have "13 * 13 \<le> (- d) * (- d)" by (intro mult_mono) simp_all
    then show ?thesis by simp
  qed
  then show False using assms by (simp add: RADIUS_def)
qed

lemma dist2_le_radius:
  assumes "dist2 (x, y) (a, b) \<le> RADIUS * RADIUS"
  shows "x - RADIUS \<le> a" "a \<le> x + RADIUS" "y - RADIUS \<le> b" "b \<le> y + RADIUS"
proof -
  have nn: "0 \<le> (x - a) * (x - a)" "0 \<le> (y - b) * (y - b)" by simp_all
  have "(x - a) * (x - a) + (y - b) * (y - b) \<le> RADIUS * RADIUS"
    using assms by (simp add: dist2_def)
  then have "(x - a) * (x - a) \<le> RADIUS * RADIUS" "(y - b) * (y - b) \<le> RADIUS * RADIUS"
    using nn by linarith+
  then have "- RADIUS \<le> x - a \<and> x - a \<le> RADIUS" "- RADIUS \<le> y - b \<and> y - b \<le> RADIUS"
    by (simp_all only: sq_le_radius)
  then show "x - RADIUS \<le> a" "a \<le> x + RADIUS" "y - RADIUS \<le> b" "b \<le> y + RADIUS"
    by simp_all
qed

lemma load_alpha:
  assumes "well_formed img p" "in_canvas img c"
  shows "load p ((snd c * int (width img) + fst c) * 2 + 1) = Inr (p ! alpha_at img c)"
  using pixel_index_bound [OF assms(2)] assms(1)
  by (simp add: load_def well_formed_def alpha_at_def)

lemma load_before_last_row:
  assumes wf: "well_formed img p" and iy: "0 \<le> iy" "iy + 1 < int (height img)"
    and ix: "0 \<le> ix" "ix \<le> int (width img)" and w: "0 < width img"
  shows "\<exists>v. load p ((iy * int (width img) + ix) * 2 + 1) = Inr v"
proof -
  have c: "in_canvas img (0, iy + 1)" using iy w by (simp add: in_canvas_def)
  have "((iy + 1) * int (width img) + 0) * 2 + 1 < int (length p)"
    using pixel_index_bound(2) [OF c] wf by (simp add: well_formed_def)
  moreover have "(iy * int (width img) + ix) * 2 + 1 \<le> ((iy + 1) * int (width img) + 0) * 2 + 1"
    using ix(2) by (simp add: algebra_simps)
  moreover have "0 \<le> iy * int (width img)" using iy(1) by simp
  then have "0 \<le> (iy * int (width img) + ix) * 2 + 1" using ix(1) by simp
  ultimately show ?thesis by (simp add: load_def)
qed

lemma scan_row_total:
  assumes "well_formed img p" "0 \<le> iy" "iy + 1 < int (height img)" "0 < width img"
    and "\<forall>ix \<in> set ixs. 0 \<le> ix \<and> ix \<le> int (width img)"
  shows "\<exists>r. scan_row img p x y iy ixs = Inr r"
  using assms(5)
proof (induction ixs)
  case Nil
  show ?case by (rule exI [of _ True]) simp
next
  case (Cons ix ixs)
  then obtain v where v: "load p ((iy * int (width img) + ix) * 2 + 1) = Inr v"
    using load_before_last_row [OF assms(1-3) _ _ assms(4), of ix] by auto
  from Cons obtain r where r: "scan_row img p x y iy ixs = Inr r" by auto
  show ?case
  proof (cases "(x - ix) * (x - ix) + (y - iy) * (y - iy) > RADIUS * RADIUS")
    case True
    then show ?thesis using r by (simp add: Let_def)
  next
    case False
    then show ?thesis using r v by (cases "v = 0") (auto simp: Let_def)
  qed
qed

lemma scan_row_hit:
  assumes wf: "well_formed img p" and a: "in_canvas img (a, iy)"
    and near: "dist2 (x, y) (a, iy) \<le> RADIUS * RADIUS"
    and opaque: "p ! alpha_at img (a, iy) \<noteq> 0"
    and pre: "\<forall>ix \<in> set pre. 0 \<le> ix \<and> ix < int (width img)"
  shows "scan_row img p x y iy (pre @ a # post) = Inr False"
  using pre
proof (induction pre)
  case Nil
  have "\<not> (x - a) * (x - a) + (y - iy) * (y - iy) > RADIUS * RADIUS"
    using near by (simp add: dist2_def)
  then show ?case using load_alpha [OF wf a] opaque by (simp add: Let_def)
next
  case (Cons ix pre)
  have "in_canvas img (ix, iy)" using Cons.prems a by (simp add: in_canvas_def)
  from load_alpha [OF wf this] show ?case using Cons by (simp add: Let_def)
qed

lemma scan_rows_hit:
  assumes "\<forall>iy \<in> set pre. \<exists>r. scan_row img p x y iy
              [Max (x - RADIUS) 0 .. Min (x + RADIUS) (int (width img))] = Inr r"
    and "scan_row img p x y b
              [Max (x - RADIUS) 0 .. Min (x + RADIUS) (int (width img))] = Inr False"
  shows "scan_rows img p x y (pre @ b # post) = Inr False"
  using assms(1)
proof (induction pre)
  case Nil
  then show ?case using assms(2) by simp
next
  case (Cons iy pre)
  then obtain r where "scan_row img p x y iy
              [Max (x - RADIUS) 0 .. Min (x + RADIUS) (int (width img))] = Inr r" by auto
  then show ?case using Cons by (cases r) simp_all
qed

lemma IsEmptyRegion_blocked:
  assumes wf: "well_formed img p" and a: "in_canvas img (a, b)"
    and near: "dist2 (x, y) (a, b) \<le> RADIUS * RADIUS"
    and opaque: "p ! alpha_at img (a, b) \<noteq> 0"
  shows "IsEmptyRegion img p x y = Inr False"
proof -
  let ?W = "int (width img)" and ?H = "int (height img)"
  let ?xlo = "Max (x - RADIUS) 0" and ?xhi = "Min (x + RADIUS) ?W"
  let ?ylo = "Max (y - RADIUS) 0" and ?yhi = "Min (y + RADIUS) ?H"
  have ab: "0 \<le> a" "a < ?W" "0 \<le> b" "b < ?H" using a by (simp_all add: in_canvas_def)
  have w: "0 < width img" using ab(1,2) by simp
  note r = dist2_le_radius [OF near]
  have xs: "?xlo \<le> a" "a \<le> ?xhi" "0 \<le> ?xlo" "?xhi \<le> ?W"
    using r ab by (simp_all add: Max_def Min_def)
  have ys: "?ylo \<le> b" "b \<le> ?yhi" "0 \<le> ?ylo"
    using r ab by (simp_all add: Max_def Min_def)
  have cols: "[?xlo..?xhi] = [?xlo..a - 1] @ a # [a + 1..?xhi]"
    using xs(1,2) by (rule upto_split3)
  have rows: "[?ylo..?yhi] = [?ylo..b - 1] @ b # [b + 1..?yhi]"
    using ys(1,2) by (rule upto_split3)
  have hit: "scan_row img p x y b [?xlo..?xhi] = Inr False"
    unfolding cols
    by (rule scan_row_hit [OF wf a near opaque]) (use xs(3) ab(2) in auto)
  have above: "\<forall>iy \<in> set [?ylo..b - 1]. \<exists>r. scan_row img p x y iy [?xlo..?xhi] = Inr r"
  proof
    fix iy assume "iy \<in> set [?ylo..b - 1]"
    then have iy: "0 \<le> iy" "iy + 1 < ?H" using ys(3) ab(4) by auto
    show "\<exists>r. scan_row img p x y iy [?xlo..?xhi] = Inr r"
      by (rule scan_row_total [OF wf iy w]) (use xs(3,4) in auto)
  qed
  show ?thesis unfolding IsEmptyRegion_def rows by (rule scan_rows_hit [OF above hit])
qed

subsection \<open>Accepted stars keep their distance\<close>

lemma dist2_commute: "dist2 a b = dist2 b a"
  by (simp add: dist2_def algebra_simps)

lemma odd_neq_even:
  fixes m n :: int
  shows "m * 2 + 1 \<noteq> n * 2"
proof
  assume "m * 2 + 1 = n * 2"
  then have "even (m * 2 + 1)" by simp
  then show False by simp
qed

lemma alpha_neq_gray:
  assumes "in_canvas img a" "in_canvas img c"
  shows "alpha_at img a \<noteq> gray_at img c"
proof
  define m where "m = snd a * int (width img) + fst a"
  define n where "n = snd c * int (width img) + fst c"
  assume eq: "alpha_at img a = gray_at img c"
  have "0 \<le> m * 2" "0 \<le> n * 2"
    using pixel_index_bound(1) [OF assms(1)] pixel_index_bound(1) [OF assms(2)]
    by (simp_all add: m_def n_def)
  moreover have "nat (m * 2 + 1) = nat (n * 2)"
    using eq by (simp add: alpha_at_def gray_at_def m_def n_def)
  ultimately have "m * 2 + 1 = n * 2" by linarith
  then show False using odd_neq_even by blast
qed

lemma alpha_at_less:
  assumes "well_formed img p" "in_canvas img c"
  shows "alpha_at img c < length p"
proof -
  define t where "t = (snd c * int (width img) + fst c) * 2 + 1"
  have "t < int (length p)"
    using pixel_index_bound(2) [OF assms(2)] assms(1) by (simp add: well_formed_def t_def)
  moreover have "0 \<le> t" using pixel_index_bound(1) [OF assms(2)] by (simp add: t_def)
  ultimately have "nat t < length p" by linarith
  then show ?thesis by (simp add: alpha_at_def t_def)
qed

lemma DrawPixel_opaque:
  assumes wf: "well_formed img p" and c: "in_canvas img c"
    and d: "DrawPixel img p (fst c) (snd c) = Inr p1"
  shows "well_formed img p1" "p1 ! alpha_at img c \<noteq> 0"
    "\<And>a. in_canvas img a \<Longrightarrow> p ! alpha_at img a \<noteq> 0 \<Longrightarrow> p1 ! alpha_at img a \<noteq> 0"
proof -
  have c': "in_canvas img (fst c, snd c)" using c by simp
  have p1: "p1 = p[gray_at img c := 0, alpha_at img c := 0xff]"
    using DrawPixel_in [OF wf c'] d by simp
  note len = alpha_at_less [OF wf c]
  show "well_formed img p1" using wf by (simp add: p1 well_formed_def)
  show "p1 ! alpha_at img c \<noteq> 0" using len by (simp add: p1)
  fix a assume a: "in_canvas img a" "p ! alpha_at img a \<noteq> 0"
  show "p1 ! alpha_at img a \<noteq> 0"
  proof (cases "alpha_at img a = alpha_at img c")
    case True
    then show ?thesis using len by (simp add: p1)
  next
    case False
    then show ?thesis using a(2) alpha_neq_gray [OF a(1) c] by (simp add: p1)
  qed
qed

lemma select_far:
  assumes "well_formed img p" "\<forall>c \<in> set cands. in_canvas img c"
    and "append_registry img cands p = Inr (reg, p')"
    and "in_canvas img a" "p ! alpha_at img a \<noteq> 0" "q \<in> set reg"
  shows "RADIUS * RADIUS < dist2 q a"
  using assms
proof (induction cands arbitrary: p reg)
  case Nil
  then show ?case by simp
next
  case (Cons c rest)
  have c: "in_canvas img c" and rest: "\<forall>c \<in> set rest. in_canvas img c"
    using Cons.prems(2) by simp_all
  show ?case
  proof (cases "IsStarLocation (fst c) (snd c)")
    case False
    then have "append_registry img rest p = Inr (reg, p')" using Cons.prems(3) by simp
    from Cons.IH [OF Cons.prems(1) rest this Cons.prems(4,5,6)] show ?thesis .
  next
    case True
    then obtain empty where e: "IsEmptyRegion img p (fst c) (snd c) = Inr empty"
      using Cons.prems(3) by (cases "IsEmptyRegion img p (fst c) (snd c)") simp_all
    show ?thesis
    proof (cases empty)
      case False
      then have "append_registry img rest p = Inr (reg, p')" using Cons.prems(3) True e by simp
      from Cons.IH [OF Cons.prems(1) rest this Cons.prems(4,5,6)] show ?thesis .
    next
      case yes: True
      then obtain p1 where p1: "DrawPixel img p (fst c) (snd c) = Inr p1"
        using Cons.prems(3) True e by (cases "DrawPixel img p (fst c) (snd c)") simp_all
      then obtain reg1 where r1: "append_registry img rest p1 = Inr (reg1, p')" and reg: "reg = c # reg1"
        using Cons.prems(3) True e yes by (cases "append_registry img rest p1") auto
      note dp = DrawPixel_opaque [OF Cons.prems(1) c p1]
      show ?thesis
      proof (cases "q = c")
        case qc: True
        have "\<not> dist2 (fst c, snd c) (fst a, snd a) \<le> RADIUS * RADIUS"
        proof
          assume "dist2 (fst c, snd c) (fst a, snd a) \<le> RADIUS * RADIUS"
          from IsEmptyRegion_blocked [OF Cons.prems(1) _ this] Cons.prems(4,5)
          have "IsEmptyRegion img p (fst c) (snd c) = Inr False" by simp
          then show False using e yes by simp
        qed
        then show ?thesis using qc by simp
      next
        case False
        then have "q \<in> set reg1" using Cons.prems(6) reg by simp
        from Cons.IH [OF dp(1) rest r1 Cons.prems(4) dp(3) [OF Cons.prems(4,5)] this]
        show ?thesis .
      qed
    qed
  qed
qed

lemma select_pairwise:
  assumes "well_formed img p" "\<forall>c \<in> set cands. in_canvas img c"
    and "append_registry img cands p = Inr (reg, p')" "i < j" "j < length reg"
  shows "RADIUS * RADIUS < dist2 (reg ! i) (reg ! j)"
  using assms
proof (induction cands arbitrary: p reg i j)
  case Nil
  then show ?case by simp
next
  case (Cons c rest)
  have c: "in_canvas img c" and rest: "\<forall>c \<in> set rest. in_canvas img c"
    using Cons.prems(2) by simp_all
  show ?case
  proof (cases "IsStarLocation (fst c) (snd c)")
    case False
    then have "append_registry img rest p = Inr (reg, p')" using Cons.prems(3) by simp
    from Cons.IH [OF Cons.prems(1) rest this Cons.prems(4,5)] show ?thesis .
  next
    case True
    then obtain empty where e: "IsEmptyRegion img p (fst c) (snd c) = Inr empty"
      using Cons.prems(3) by (cases "IsEmptyRegion img p (fst c) (snd c)") simp_all
    show ?thesis
    proof (cases empty)
      case False
      then have "append_registry img rest p = Inr (reg, p')" using Cons.prems(3) True e by simp
      from Cons.IH [OF Cons.prems(1) rest this Cons.prems(4,5)] show ?thesis .
    next
      case yes: True
      then obtain p1 where p1: "DrawPixel img p (fst c) (snd c) = Inr p1"
        using Cons.prems(3) True e by (cases "DrawPixel img p (fst c) (snd c)") simp_all
      then obtain reg1 where r1: "append_registry img rest p1 = Inr (reg1, p')" and reg: "reg = c # reg1"
        using Cons.prems(3) True e yes by (cases "append_registry img rest p1") auto
      note dp = DrawPixel_opaque [OF Cons.prems(1) c p1]
      obtain j' where j': "j = Suc j'" using Cons.prems(4) by (cases j) simp_all
      have j'l: "j' < length reg1" using Cons.prems(5) reg j' by simp
      show ?thesis
      proof (cases i)
        case 0
        have "reg1 ! j' \<in> set reg1" using j'l by simp
        from select_far [OF dp(1) rest r1 c dp(2) this]
        show ?thesis using 0 j' reg by (simp add: dist2_commute)
      next
        case (Suc i')
        then have "i' < j'" using Cons.prems(4) j' by simp
        from Cons.IH [OF dp(1) rest r1 this j'l] show ?thesis using Suc j' reg by simp
      qed
    qed
  qed
qed

lemma select_none:
  assumes "\<forall>c \<in> set cands. \<not> IsStarLocation (fst c) (snd c) \<or>
             IsEmptyRegion img p (fst c) (snd c) = Inr False"
  shows "append_registry img cands p = Inr ([], p)"
  using assms by (induction cands) auto

lemma shuffle_Inr_mset:
  "shuffle pick n stars = Inr xs \<Longrightarrow> mset xs = mset stars"
proof (induction n arbitrary: stars)
  case 0
  then show ?case by simp
next
  case (Suc n)
  let ?j = "pick (int (Suc n))"
  have g: "Suc n < length stars \<and> 0 \<le> ?j \<and> ?j < int (length stars)"
    using Suc.prems by (simp add: Let_def split: if_splits)
  then have jl: "nat ?j < length stars" by linarith
  let ?s = "(stars[Suc n := stars ! nat ?j])[nat ?j := stars ! Suc n]"
  have "shuffle pick n ?s = Inr xs" using Suc.prems g by (simp add: Let_def)
  from Suc.IH [OF this] show ?case using g jl by (simp add: mset_swap)
qed

subsection \<open>Generation in terms of the append-only registry\<close>

lemma visit_select_Inr:
  assumes "visit img (length cands) 0 \<lparr>st_stars = cands, st_star_count = 0, st_pixels = p0\<rparr> = Inr s"
  shows "append_registry img cands p0 = Inr (registry s, st_pixels s)"
    and "st_star_count s = length (registry s)"
  using visit_refines [of "length cands" cands img p0] assms
  by (simp_all add: visit_eq_upto registry_def)

lemma select_visit_Inr:
  assumes "append_registry img cands p0 = Inr (reg, p')"
  shows "\<exists>s. visit img (length cands) 0 \<lparr>st_stars = cands, st_star_count = 0, st_pixels = p0\<rparr> = Inr s
             \<and> registry s = reg \<and> st_pixels s = p' \<and> st_star_count s = length reg"
proof (cases "visit_upto img (length cands) \<lparr>st_stars = cands, st_star_count = 0, st_pixels = p0\<rparr>")
  case (Inl e)
  then show ?thesis using visit_refines [of "length cands" cands img p0] assms by simp
next
  case (Inr s)
  then have "visit img (length cands) 0 \<lparr>st_stars = cands, st_star_count = 0, st_pixels = p0\<rparr> = Inr s"
    by (simp add: visit_eq_upto)
  from visit_select_Inr [OF this] this show ?thesis using assms by auto
qed

lemma visit_select_outcome:
  "map_sum id registry
     (visit img (length cands) 0 \<lparr>st_stars = cands, st_star_count = 0, st_pixels = p0\<rparr>) =
   map_sum id fst (append_registry img cands p0)"
proof (cases "visit_upto img (length cands) \<lparr>st_stars = cands, st_star_count = 0, st_pixels = p0\<rparr>")
  case (Inl e)
  then show ?thesis using visit_refines [of "length cands" cands img p0]
    by (simp add: visit_eq_upto)
next
  case (Inr s)
  then show ?thesis using visit_refines [of "length cands" cands img p0]
    by (simp add: visit_eq_upto registry_def)
qed

lemma generate_unfold:
  "generate pick img p0 =
     and_then (shuffle pick (width img * height img - 1) (init_stars img)) (\<lambda>cands.
       visit img (length cands) 0 \<lparr>st_stars = cands, st_star_count = 0, st_pixels = p0\<rparr>)"
proof (cases "shuffle pick (width img * height img - 1) (init_stars img)")
  case (Inl e)
  then show ?thesis by (simp add: generate_def)
next
  case (Inr cands)
  then have "length cands = width img * height img"
    using shuffle_Inr_mset [OF Inr] length_init_stars [of img] by (metis mset_eq_length)
  then show ?thesis using Inr by (simp add: generate_def)
qed

lemma generate_Inr_select:
  assumes "generate pick img p0 = Inr s"
  shows "\<exists>cands. mset cands = mset (init_stars img) \<and>
           append_registry img cands p0 = Inr (registry s, st_pixels s) \<and>
           st_star_count s = length (registry s)"
proof -
  obtain cands where c: "shuffle pick (width img * height img - 1) (init_stars img) = Inr cands"
    using assms unfolding generate_unfold
    by (cases "shuffle pick (width img * height img - 1) (init_stars img)") simp_all
  then have v: "visit img (length cands) 0 \<lparr>st_stars = cands, st_star_count = 0, st_pixels = p0\<rparr> = Inr s"
    using assms unfolding generate_unfold by simp
  show ?thesis using shuffle_Inr_mset [OF c] visit_select_Inr [OF v] by blast
qed

lemma in_canvas_of_mset:
  assumes "mset cands = mset (init_stars img)"
  shows "\<forall>c \<in> set cands. in_canvas img c"
  using mset_eq_setD [OF assms] set_init_stars [of img] by simp

lemma select_visit_upto:
  assumes "k \<le> length cands" "append_registry img (take k cands) p0 = Inr (reg, p')"
  shows "\<exists>s. visit_upto img k \<lparr>st_stars = cands, st_star_count = 0, st_pixels = p0\<rparr> = Inr s
             \<and> registry s = reg \<and> st_pixels s = p' \<and> st_star_count s \<le> k"
proof (cases "visit_upto img k \<lparr>st_stars = cands, st_star_count = 0, st_pixels = p0\<rparr>")
  case (Inl e)
  then show ?thesis using visit_refines [OF assms(1), of img p0] assms(2) by simp
next
  case (Inr s)
  then show ?thesis using visit_refines [OF assms(1), of img p0] assms(2)
    by (simp add: registry_def)
qed

subsection \<open>Only the alpha channel matters\<close>

lemma same_alpha_load:
  assumes "same_alpha p q"
  shows "load p (m * 2 + 1) = load q (m * 2 + 1)"
proof (cases "0 \<le> m * 2 + 1 \<and> m * 2 + 1 < int (length p)")
  case False
  then show ?thesis using assms by (auto simp: load_def same_alpha_def)
next
  case True
  then have "0 \<le> m" by linarith
  then have "nat (m * 2 + 1) = nat m * 2 + 1" by (simp add: nat_add_distrib nat_mult_distrib)
  then have "odd (nat (m * 2 + 1))" by simp
  moreover have "nat (m * 2 + 1) < length p" using True by linarith
  ultimately have "p ! nat (m * 2 + 1) = q ! nat (m * 2 + 1)"
    using assms by (simp add: same_alpha_def)
  then show ?thesis using assms by (simp add: load_def same_alpha_def)
qed

lemma same_alpha_scan_row:
  assumes "same_alpha p q"
  shows "scan_row img p x y iy ixs = scan_row img q x y iy ixs"
proof (induction ixs)
  case Nil
  show ?case by simp
next
  case (Cons ix ixs)
  have l: "load p ((iy * int (width img) + ix) * 2 + 1) =
           load q ((iy * int (width img) + ix) * 2 + 1)"
    by (rule same_alpha_load [OF assms])
  show ?case by (simp only: scan_row.simps Let_def l Cons.IH)
qed

lemma same_alpha_scan_rows:
  assumes "same_alpha p q"
  shows "scan_rows img p x y iys = scan_rows img q x y iys"
proof (induction iys)
  case Nil
  show ?case by simp
next
  case (Cons iy iys)
  show ?case by (simp only: scan_rows.simps same_alpha_scan_row [OF assms] Cons.IH)
qed

lemma same_alpha_IsEmptyRegion:
  "same_alpha p q \<Longrightarrow> IsEmptyRegion img p x y = IsEmptyRegion img q x y"
  by (simp add: IsEmptyRegion_def same_alpha_scan_rows)

lemma same_alpha_kept:
  assumes "same_alpha p q" "agree_or_kept p q p1 q1"
  shows "same_alpha p1 q1"
  using assms unfolding same_alpha_def agree_or_kept_def by metis

lemma same_alpha_DrawPixel:
  assumes "same_alpha p q"
  shows "(\<exists>e. DrawPixel img p x y = Inl e \<and> DrawPixel img q x y = Inl e) \<or>
         (\<exists>p1 q1. DrawPixel img p x y = Inr p1 \<and> DrawPixel img q x y = Inr q1 \<and>
            same_alpha p1 q1)"
proof -
  have len: "length p = length q" using assms by (simp add: same_alpha_def)
  from uniform_DrawPixel [of img x y] len have
    "(\<exists>e. DrawPixel img p x y = Inl e \<and> DrawPixel img q x y = Inl e) \<or>
     (\<exists>p1 q1. DrawPixel img p x y = Inr p1 \<and> DrawPixel img q x y = Inr q1 \<and>
        agree_or_kept p q p1 q1)"
    unfolding uniform_def by blast
  then show ?thesis using same_alpha_kept [OF assms] by blast
qed

lemma same_alpha_select:
  assumes "same_alpha p q"
  shows "(\<exists>e. append_registry img cands p = Inl e \<and> append_registry img cands q = Inl e) \<or>
         (\<exists>reg p' q'. append_registry img cands p = Inr (reg, p') \<and> append_registry img cands q = Inr (reg, q') \<and>
            same_alpha p' q')"
  using assms
proof (induction cands arbitrary: p q)
  case Nil
  then show ?case by simp
next
  case (Cons c rest)
  note e = same_alpha_IsEmptyRegion [OF Cons.prems, of img "fst c" "snd c"]
  show ?case
  proof (cases "IsStarLocation (fst c) (snd c)")
    case False
    then show ?thesis using Cons.IH [OF Cons.prems] by simp
  next
    case True
    show ?thesis
    proof (cases "IsEmptyRegion img p (fst c) (snd c)")
      case (Inl err)
      then show ?thesis using True e by simp
    next
      case (Inr empty)
      show ?thesis
      proof (cases empty)
        case False
        then show ?thesis using True Inr e Cons.IH [OF Cons.prems] by simp
      next
        case yes: True
        from same_alpha_DrawPixel [OF Cons.prems, of img "fst c" "snd c"]
        consider (err) err where "DrawPixel img p (fst c) (snd c) = Inl err"
            "DrawPixel img q (fst c) (snd c) = Inl err"
          | (ok) p1 q1 where "DrawPixel img p (fst c) (snd c) = Inr p1"
            "DrawPixel img q (fst c) (snd c) = Inr q1" "same_alpha p1 q1"
          by blast
        then show ?thesis
        proof cases
          case err
          then show ?thesis using True Inr e yes by simp
        next
          case ok
          from Cons.IH [OF ok(3)] show ?thesis
          proof
            assume "\<exists>e. append_registry img rest p1 = Inl e \<and> append_registry img rest q1 = Inl e"
            then show ?thesis using True Inr e yes ok by auto
          next
            assume "\<exists>reg p' q'. append_registry img rest p1 = Inr (reg, p') \<and>
                      append_registry img rest q1 = Inr (reg, q') \<and> same_alpha p' q'"
            then show ?thesis using True Inr e yes ok by auto
          qed
        qed
      qed
    qed
  qed
qed

lemma generate_outcome:
  "map_sum id registry (generate pick img p0) =
     and_then (shuffle pick (width img * height img - 1) (init_stars img))
       (\<lambda>cands. map_sum id fst (append_registry img cands p0))"
proof (cases "shuffle pick (width img * height img - 1) (init_stars img)")
  case (Inl e)
  then show ?thesis by (simp add: generate_unfold)
next
  case (Inr cands)
  then show ?thesis using visit_select_outcome [of img cands p0] by (simp add: generate_unfold)
qed

subsection \<open>The worked example, evaluated\<close>

text \<open>
  The hash test on every coordinate of the example canvas: twelve coordinates pass.
\<close>

lemma example_hashes:
  "IsStarLocation 0 0" "\<not> IsStarLocation 1 0" "\<not> IsStarLocation 2 0"
  "\<not> IsStarLocation 3 0" "\<not> IsStarLocation 4 0" "\<not> IsStarLocation 5 0"
  "\<not> IsStarLocation 6 0" "\<not> IsStarLocation 7 0" "IsStarLocation 8 0"
  "\<not> IsStarLocation 9 0" "\<not> IsStarLocation 0 1" "\<not> IsStarLocation 1 1"
  "\<not> IsStarLocation 2 1" "\<not> IsStarLocation 3 1" "\<not> IsStarLocation 4 1"
  "\<not> IsStarLocation 5 1" "\<not> IsStarLocation 6 1" "\<not> IsStarLocation 7 1"
  "\<not> IsStarLocation 8 1" "\<not> IsStarLocation 9 1" "\<not> IsStarLocation 0 2"
  "\<not> IsStarLocation 1 2" "\<not> IsStarLocation 2 2" "\<not> IsStarLocation 3 2"
  "\<not> IsStarLocation 4 2" "\<not> IsStarLocation 5 2" "\<not> IsStarLocation 6 2"
  "\<not> IsStarLocation 7 2" "\<not> IsStarLocation 8 2" "\<not> IsStarLocation 9 2"
  "\<not> IsStarLocation 0 3" "\<not> IsStarLocation 1 3" "\<not> IsStarLocation 2 3"
  "\<not> IsStarLocation 3 3" "\<not> IsStarLocation 4 3" "\<not> IsStarLocation 5 3"
  "\<not> IsStarLocation 6 3" "\<not> IsStarLocation 7 3" "\<not> IsStarLocation 8 3"
  "\<not> IsStarLocation 9 3" "\<not> IsStarLocation 0 4" "\<not> IsStarLocation 1 4"
  "\<not> IsStarLocation 2 4" "\<not> IsStarLocation 3 4" "\<not> IsStarLocation 4 4"
  "\<not> IsStarLocation 5 4" "\<not> IsStarLocation 6 4" "\<not> IsStarLocation 7 4"
  "\<not> IsStarLocation 8 4" "\<not> IsStarLocation 9 4" "\<not> IsStarLocation 0 5"
  "\<not> IsStarLocation 1 5" "\<not> IsStarLocation 2 5" "\<not> IsStarLocation 3 5"
  "\<not> IsStarLocation 4 5" "\<not> IsStarLocation 5 5" "\<not> IsStarLocation 6 5"
  "\<not> IsStarLocation 7 5" "\<not> IsStarLocation 8 5" "\<not> IsStarLocation 9 5"
  "\<not> IsStarLocation 0 6" "\<not> IsStarLocation 1 6" "\<not> IsStarLocation 2 6"
  "\<not> IsStarLocation 3 6" "\<not> IsStarLocation 4 6" "\<not> IsStarLocation 5 6"
  "\<not> IsStarLocation 6 6" "\<not> IsStarLocation 7 6" "\<not> IsStarLocation 8 6"
  "\<not> IsStarLocation 9 6" "\<not> IsStarLocation 0 7" "\<not> IsStarLocation 1 7"
  "\<not> IsStarLocation 2 7" "\<not> IsStarLocation 3 7" "\<not> IsStarLocation 4 7"
  "\<not> IsStarLocation 5 7" "IsStarLocation 6 7" "\<not> IsStarLocation 7 7"
  "\<not> IsStarLocation 8 7" "\<not> IsStarLocation 9 7" "\<not> IsStarLocation 0 8"
  "\<not> IsStarLocation 1 8" "\<not> IsStarLocation 2 8" "\<not> IsStarLocation 3 8"
  "\<not> IsStarLocation 4 8" "IsStarLocation 5 8" "\<not> IsStarLocation 6 8"
  "\<not> IsStarLocation 7 8" "\<not> IsStarLocation 8 8" "\<not> IsStarLocation 9 8"
  "\<not> IsStarLocation 0 9" "\<not> IsStarLocation 1 9" "\<not> IsStarLocation 2 9"
  "\<not> IsStarLocation 3 9" "\<not> IsStarLocation 4 9" "\<not> IsStarLocation 5 9"
  "\<not> IsStarLocation 6 9" "\<not> IsStarLocation 7 9" "\<not> IsStarLocation 8 9"
  "\<not> IsStarLocation 9 9" "IsStarLocation 0 10" "\<not> IsStarLocation 1 10"
  "\<not> IsStarLocation 2 10" "\<not> IsStarLocation 3 10" "\<not> IsStarLocation 4 10"
  "\<not> IsStarLocation 5 10" "\<not> IsStarLocation 6 10" "\<not> IsStarLocation 7 10"
  "\<not> IsStarLocation 8 10" "\<not> IsStarLocation 9 10" "\<not> IsStarLocation 0 11"
  "\<not> IsStarLocation 1 11" "IsStarLocation 2 11" "\<not> IsStarLocation 3 11"
  "\<not> IsStarLocation 4 11" "\<not> IsStarLocation 5 11" "\<not> IsStarLocation 6 11"
  "\<not> IsStarLocation 7 11" "\<not> IsStarLocation 8 11" "\<not> IsStarLocation 9 11"
  "\<not> IsStarLocation 0 12" "\<not> IsStarLocation 1 12" "\<not> IsStarLocation 2 12"
  "\<not> IsStarLocation 3 12" "\<not> IsStarLocation 4 12" "\<not> IsStarLocation 5 12"
  "\<not> IsStarLocation 6 12" "\<not> IsStarLocation 7 12" "IsStarLocation 8 12"
  "\<not> IsStarLocation 9 12" "\<not> IsStarLocation 0 13" "\<not> IsStarLocation 1 13"
  "\<not> IsStarLocation 2 13" "\<not> IsStarLocation 3 13" "\<not> IsStarLocation 4 13"
  "\<not> IsStarLocation 5 13" "\<not> IsStarLocation 6 13" "\<not> IsStarLocation 7 13"
  "\<not> IsStarLocation 8 13" "\<not> IsStarLocation 9 13" "\<not> IsStarLocation 0 14"
  "IsStarLocation 1 14" "\<not> IsStarLocation 2 14" "\<not> IsStarLocation 3 14"
  "\<not> IsStarLocation 4 14" "\<not> IsStarLocation 5 14" "\<not> IsStarLocation 6 14"
  "\<not> IsStarLocation 7 14" "\<not> IsStarLocation 8 14" "\<not> IsStarLocation 9 14"
  "IsStarLocation 0 15" "\<not> IsStarLocation 1 15" "\<not> IsStarLocation 2 15"
  "\<not> IsStarLocation 3 15" "\<not> IsStarLocation 4 15" "\<not> IsStarLocation 5 15"
  "\<not> IsStarLocation 6 15" "\<not> IsStarLocation 7 15" "\<not> IsStarLocation 8 15"
  "\<not> IsStarLocation 9 15" "IsStarLocation 0 16" "\<not> IsStarLocation 1 16"
  "\<not> IsStarLocation 2 16" "\<not> IsStarLocation 3 16" "\<not> IsStarLocation 4 16"
  "\<not> IsStarLocation 5 16" "\<not> IsStarLocation 6 16" "\<not> IsStarLocation 7 16"
  "\<not> IsStarLocation 8 16" "\<not> IsStarLocation 9 16" "\<not> IsStarLocation 0 17"
  "\<not> IsStarLocation 1 17" "\<not> IsStarLocation 2 17" "\<not> IsStarLocation 3 17"
  "\<not> IsStarLocation 4 17" "\<not> IsStarLocation 5 17" "\<not> IsStarLocation 6 17"
  "\<not> IsStarLocation 7 17" "\<not> IsStarLocation 8 17" "\<not> IsStarLocation 9 17"
  "\<not> IsStarLocation 0 18" "\<not> IsStarLocation 1 18" "\<not> IsStarLocation 2 18"
  "\<not> IsStarLocation 3 18" "\<not> IsStarLocation 4 18" "\<not> IsStarLocation 5 18"
  "\<not> IsStarLocation 6 18" "\<not> IsStarLocation 7 18" "\<not> IsStarLocation 8 18"
  "\<not> IsStarLocation 9 18" "\<not> IsStarLocation 0 19" "\<not> IsStarLocation 1 19"
  "\<not> IsStarLocation 2 19" "\<not> IsStarLocation 3 19" "\<not> IsStarLocation 4 19"
  "\<not> IsStarLocation 5 19" "\<not> IsStarLocation 6 19" "IsStarLocation 7 19"
  "\<not> IsStarLocation 8 19" "\<not> IsStarLocation 9 19" "\<not> IsStarLocation 0 20"
  "\<not> IsStarLocation 1 20" "\<not> IsStarLocation 2 20" "\<not> IsStarLocation 3 20"
  "\<not> IsStarLocation 4 20" "\<not> IsStarLocation 5 20" "\<not> IsStarLocation 6 20"
  "\<not> IsStarLocation 7 20" "\<not> IsStarLocation 8 20" "\<not> IsStarLocation 9 20"
  "\<not> IsStarLocation 0 21" "\<not> IsStarLocation 1 21" "\<not> IsStarLocation 2 21"
  "\<not> IsStarLocation 3 21" "\<not> IsStarLocation 4 21" "\<not> IsStarLocation 5 21"
  "\<not> IsStarLocation 6 21" "\<not> IsStarLocation 7 21" "\<not> IsStarLocation 8 21"
  "\<not> IsStarLocation 9 21" "\<not> IsStarLocation 0 22" "\<not> IsStarLocation 1 22"
  "\<not> IsStarLocation 2 22" "\<not> IsStarLocation 3 22" "\<not> IsStarLocation 4 22"
  "\<not> IsStarLocation 5 22" "\<not> IsStarLocation 6 22" "\<not> IsStarLocation 7 22"
  "\<not> IsStarLocation 8 22" "\<not> IsStarLocation 9 22" "\<not> IsStarLocation 0 23"
  "\<not> IsStarLocation 1 23" "\<not> IsStarLocation 2 23" "\<not> IsStarLocation 3 23"
  "\<not> IsStarLocation 4 23" "\<not> IsStarLocation 5 23" "\<not> IsStarLocation 6 23"
  "\<not> IsStarLocation 7 23" "\<not> IsStarLocation 8 23" "\<not> IsStarLocation 9 23"
  "\<not> IsStarLocation 0 24" "\<not> IsStarLocation 1 24" "\<not> IsStarLocation 2 24"
  "\<not> IsStarLocation 3 24" "\<not> IsStarLocation 4 24" "\<not> IsStarLocation 5 24"
  "\<not> IsStarLocation 6 24" "\<not> IsStarLocation 7 24" "\<not> IsStarLocation 8 24"
  "\<not> IsStarLocation 9 24" "\<not> IsStarLocation 0 25" "\<not> IsStarLocation 1 25"
  "\<not> IsStarLocation 2 25" "IsStarLocation 3 25" "\<not> IsStarLocation 4 25"
  "\<not> IsStarLocation 5 25" "\<not> IsStarLocation 6 25" "\<not> IsStarLocation 7 25"
  "\<not> IsStarLocation 8 25" "\<not> IsStarLocation 9 25"
  by (simp_all add: IsStarLocation_def HashPair_def Hash_def int_bytes_def mix_def Let_def)

lemma example_init: "init_stars example_image =
    [(0, 0), (1, 0), (2, 0), (3, 0), (4, 0), (5, 0), (6, 0), (7, 0), (8, 0), (9, 0), (0, 1),
     (1, 1), (2, 1), (3, 1), (4, 1), (5, 1), (6, 1), (7, 1), (8, 1), (9, 1), (0, 2), (1, 2),
     (2, 2), (3, 2), (4, 2), (5, 2), (6, 2), (7, 2), (8, 2), (9, 2), (0, 3), (1, 3), (2, 3),
     (3, 3), (4, 3), (5, 3), (6, 3), (7, 3), (8, 3), (9, 3), (0, 4), (1, 4), (2, 4), (3, 4),
     (4, 4), (5, 4), (6, 4), (7, 4), (8, 4), (9, 4), (0, 5), (1, 5), (2, 5), (3, 5), (4, 5),
     (5, 5), (6, 5), (7, 5), (8, 5), (9, 5), (0, 6), (1, 6), (2, 6), (3, 6), (4, 6), (5, 6),
     (6, 6), (7, 6), (8, 6), (9, 6), (0, 7), (1, 7), (2, 7), (3, 7), (4, 7), (5, 7), (6, 7),
     (7, 7), (8, 7), (9, 7), (0, 8), (1, 8), (2, 8), (3, 8), (4, 8), (5, 8), (6, 8), (7, 8),
     (8, 8), (9, 8), (0, 9), (1, 9), (2, 9), (3, 9), (4, 9), (5, 9), (6, 9), (7, 9), (8, 9),
     (9, 9), (0, 10), (1, 10), (2, 10), (3, 10), (4, 10), (5, 10), (6, 10), (7, 10), (8,
     10), (9, 10), (0, 11), (1, 11), (2, 11), (3, 11), (4, 11), (5, 11), (6, 11), (7, 11),
     (8, 11), (9, 11), (0, 12), (1, 12), (2, 12), (3, 12), (4, 12), (5, 12), (6, 12), (7,
     12), (8, 12), (9, 12), (0, 13), (1, 13), (2, 13), (3, 13), (4, 13), (5, 13), (6, 13),
     (7, 13), (8, 13), (9, 13), (0, 14), (1, 14), (2, 14), (3, 14), (4, 14), (5, 14), (6,
     14), (7, 14), (8, 14), (9, 14), (0, 15), (1, 15), (2, 15), (3, 15), (4, 15), (5, 15),
     (6, 15), (7, 15), (8, 15), (9, 15), (0, 16), (1, 16), (2, 16), (3, 16), (4, 16), (5,
     16), (6, 16), (7, 16), (8, 16), (9, 16), (0, 17), (1, 17), (2, 17), (3, 17), (4, 17),
     (5, 17), (6, 17), (7, 17), (8, 17), (9, 17), (0, 18), (1, 18), (2, 18), (3, 18), (4,
     18), (5, 18), (6, 18), (7, 18), (8, 18), (9, 18), (0, 19), (1, 19), (2, 19), (3, 19),
     (4, 19), (5, 19), (6, 19), (7, 19), (8, 19), (9, 19), (0, 20), (1, 20), (2, 20), (3,
     20), (4, 20), (5, 20), (6, 20), (7, 20), (8, 20), (9, 20), (0, 21), (1, 21), (2, 21),
     (3, 21), (4, 21), (5, 21), (6, 21), (7, 21), (8, 21), (9, 21), (0, 22), (1, 22), (2,
     22), (3, 22), (4, 22), (5, 22), (6, 22), (7, 22), (8, 22), (9, 22), (0, 23), (1, 23),
     (2, 23), (3, 23), (4, 23), (5, 23), (6, 23), (7, 23), (8, 23), (9, 23), (0, 24), (1,
     24), (2, 24), (3, 24), (4, 24), (5, 24), (6, 24), (7, 24), (8, 24), (9, 24), (0, 25),
     (1, 25), (2, 25), (3, 25), (4, 25), (5, 25), (6, 25), (7, 25), (8, 25), (9, 25)]"
  by code_simp

lemma example_wf:
  "well_formed example_image example_pixels" "well_formed example_image example_pixels1"
  "well_formed example_image example_pixels2"
  by (simp_all add: well_formed_def example_image_def example_pixels_def example_pixels1_def
        example_pixels2_def)

lemma example_empty0: "IsEmptyRegion example_image example_pixels 0 0 = Inr True"
  by code_simp

lemma example_empty1: "IsEmptyRegion example_image example_pixels1 8 12 = Inr True"
  by code_simp


lemma example_draw0: "DrawPixel example_image example_pixels 0 0 = Inr example_pixels1"
  using DrawPixel_in [OF example_wf(1), of 0 0]
  by (simp add: in_canvas_def gray_at_def alpha_at_def example_image_def example_pixels1_def)

lemma example_draw1: "DrawPixel example_image example_pixels1 8 12 = Inr example_pixels2"
  using DrawPixel_in [OF example_wf(2), of 8 12]
  by (simp add: in_canvas_def gray_at_def alpha_at_def example_image_def example_pixels2_def)

lemma example_opaque:
  "example_pixels1 ! alpha_at example_image (0, 0) \<noteq> 0"
  "example_pixels2 ! alpha_at example_image (8, 12) \<noteq> 0"
  "example_pixels2 ! alpha_at example_image (3, 25) \<noteq> 0"
  by (simp_all add: alpha_at_def example_image_def example_pixels_def example_pixels1_def
        example_pixels2_def nth_append)

lemma example_in_canvas:
  "in_canvas example_image (0, 0)" "in_canvas example_image (8, 12)"
  "in_canvas example_image (3, 25)"
  by (simp_all add: in_canvas_def example_image_def)

lemma example_blocked1:
  "IsEmptyRegion example_image example_pixels1 8 0 = Inr False"
  "IsEmptyRegion example_image example_pixels1 6 7 = Inr False"
  "IsEmptyRegion example_image example_pixels1 5 8 = Inr False"
  "IsEmptyRegion example_image example_pixels1 0 10 = Inr False"
  "IsEmptyRegion example_image example_pixels1 2 11 = Inr False"
  by (rule IsEmptyRegion_blocked [OF example_wf(2) example_in_canvas(1) _ example_opaque(1)],
      simp add: dist2_def RADIUS_def)+

lemma example_blocked2:
  "IsEmptyRegion example_image example_pixels2 1 14 = Inr False"
  "IsEmptyRegion example_image example_pixels2 0 15 = Inr False"
  "IsEmptyRegion example_image example_pixels2 0 16 = Inr False"
  "IsEmptyRegion example_image example_pixels2 7 19 = Inr False"
  by (rule IsEmptyRegion_blocked [OF example_wf(3) example_in_canvas(2) _ example_opaque(2)],
      simp add: dist2_def RADIUS_def)+

lemma example_blocked3:
  "IsEmptyRegion example_image example_pixels2 3 25 = Inr False"
  by (rule IsEmptyRegion_blocked [OF example_wf(3) example_in_canvas(3) _ example_opaque(3)])
     (simp add: dist2_def RADIUS_def)

lemma example_select:
  "append_registry example_image (init_stars example_image) example_pixels =
     Inr ([(0, 0), (8, 12)], example_pixels2)"
  unfolding example_init
  by (simp add: example_hashes example_empty0 example_empty1 example_draw0 example_draw1
        example_blocked1 example_blocked2 example_blocked3)

lemma shuffle_identity:
  "n = 0 \<or> n < length stars \<Longrightarrow> shuffle (\<lambda>i. i) n stars = Inr stars"
proof (induction n)
  case 0
  show ?case by simp
next
  case (Suc n)
  have j: "nat (int (Suc n)) = Suc n" by simp
  have "(stars[Suc n := stars ! Suc n])[Suc n := stars ! Suc n] = stars" by simp
  then show ?case using Suc unfolding shuffle.simps Let_def j by simp
qed

lemma example_generate:
  "\<exists>s. generate (\<lambda>i. i) example_image example_pixels = Inr s \<and>
        registry s = [(0, 0), (8, 12)] \<and> st_star_count s = 2 \<and>
        st_pixels s = example_pixels2"
proof -
  have "shuffle (\<lambda>i. i) (width example_image * height example_image - 1)
          (init_stars example_image) = Inr (init_stars example_image)"
    by (rule shuffle_identity) (simp add: length_init_stars example_image_def)
  then show ?thesis
    using select_visit_Inr [OF example_select] by (auto simp: generate_unfold)
qed

subsection \<open>The candidate loop: claims C10, C9, C2 and C6\<close>

text \<open>
  C10.  Started with \<^verbatim>\<open>star_count = 0\<close> on any candidate array, the state of the visiting
  loop after its first \<open>k\<close> iterations has \<^verbatim>\<open>star_count\<close> at most \<open>k\<close>, the array has kept
  its length, the candidates from index \<open>k\<close> on are still the ones that were there at
  the start (no write at \<^verbatim>\<open>stars[star_count]\<close> has reached them), and the first
  \<^verbatim>\<open>star_count\<close> entries together with the canvas are what the append-only registry of
  the specification gives on the first \<open>k\<close> candidates: the accepted candidates in visit
  order.  The loop \<open>visit\<close> of the program is the state after all iterations.
\<close>

theorem compaction_in_place:
  assumes "k \<le> length cands"
    and "visit_upto img k \<lparr>st_stars = cands, st_star_count = 0, st_pixels = p0\<rparr> = Inr s"
  shows "st_star_count s \<le> k
       \<and> length (st_stars s) = length cands
       \<and> drop k (st_stars s) = drop k cands
       \<and> append_registry img (take k cands) p0 = Inr (registry s, st_pixels s)
       \<and> visit img (length cands) 0 \<lparr>st_stars = cands, st_star_count = 0, st_pixels = p0\<rparr> =
           visit_upto img (length cands) \<lparr>st_stars = cands, st_star_count = 0, st_pixels = p0\<rparr>"
  using visit_refines [OF assms(1), of img p0] assms(2)
  by (simp add: visit_eq_upto registry_def)

theorem compaction_in_place_witness:
  "\<exists>s. visit_upto example_image 260
         \<lparr>st_stars = init_stars example_image, st_star_count = 0,
          st_pixels = example_pixels\<rparr> = Inr s
       \<and> registry s = [(0, 0), (8, 12)]
       \<and> st_star_count s \<le> 260
       \<and> length (st_stars s) = length (init_stars example_image)
       \<and> drop 260 (st_stars s) = drop 260 (init_stars example_image)
       \<and> append_registry example_image (take 260 (init_stars example_image)) example_pixels =
           Inr (registry s, st_pixels s)"
proof -
  have k: "260 \<le> length (init_stars example_image)"
    by (simp add: length_init_stars example_image_def)
  have "take 260 (init_stars example_image) = init_stars example_image"
    by (simp add: length_init_stars example_image_def)
  then have "append_registry example_image (take 260 (init_stars example_image)) example_pixels =
        Inr ([(0, 0), (8, 12)], example_pixels2)"
    using example_select by simp
  from select_visit_upto [OF k this] obtain s where
    s: "visit_upto example_image 260
          \<lparr>st_stars = init_stars example_image, st_star_count = 0,
           st_pixels = example_pixels\<rparr> = Inr s"
       "registry s = [(0, 0), (8, 12)]" by blast
  from compaction_in_place [OF k s(1)] s show ?thesis by blast
qed

text \<open>
  C9.  If every coordinate of the canvas fails the hash test or the proximity test on
  the input canvas (the test returns 0), generation ends without an error, with
  \<^verbatim>\<open>star_count = 0\<close>, an empty registry and the canvas as it was.  By
  \<open>IsEmptyRegion_blocked\<close> the proximity test returns 0 for every candidate that has an
  opaque canvas pixel within \<^verbatim>\<open>RADIUS\<close>.
\<close>

theorem no_candidate_empty_registry:
  assumes "\<forall>i. 0 < i \<longrightarrow> 0 \<le> pick i \<and> pick i \<le> i"
    and "\<forall>c. in_canvas img c \<longrightarrow>
           \<not> IsStarLocation (fst c) (snd c) \<or> IsEmptyRegion img p0 (fst c) (snd c) = Inr False"
  shows "\<exists>s. generate pick img p0 = Inr s \<and> st_star_count s = 0 \<and> registry s = [] \<and>
             st_pixels s = p0"
proof -
  from shuffle_canvas [OF assms(1), of img] obtain cands where
    c: "shuffle pick (width img * height img - 1) (init_stars img) = Inr cands"
       "set cands = {c. in_canvas img c}" by blast
  have "\<forall>c \<in> set cands. \<not> IsStarLocation (fst c) (snd c) \<or>
           IsEmptyRegion img p0 (fst c) (snd c) = Inr False"
    using assms(2) c(2) by simp
  from select_visit_Inr [OF select_none [OF this]] c(1) show ?thesis
    unfolding generate_unfold by auto
qed

theorem no_candidate_empty_registry_witness:
  "\<exists>s. generate (\<lambda>i. i) \<lparr>width = 10, height = 10\<rparr> (replicate 200 255) = Inr s \<and>
       st_star_count s = 0 \<and> registry s = [] \<and> st_pixels s = replicate 200 255"
proof -
  let ?img = "\<lparr>width = 10, height = 10\<rparr>" and ?p = "replicate 200 (255 :: u8)"
  have wf: "well_formed ?img ?p" by (simp add: well_formed_def)
  have h1: "\<forall>i::int. 0 < i \<longrightarrow> 0 \<le> i \<and> i \<le> i" by simp
  have h2: "\<forall>c. in_canvas ?img c \<longrightarrow>
              \<not> IsStarLocation (fst c) (snd c) \<or>
              IsEmptyRegion ?img ?p (fst c) (snd c) = Inr False"
  proof (intro allI impI)
    fix c :: XY assume c: "in_canvas ?img c"
    then have c': "in_canvas ?img (fst c, snd c)" by simp
    have "alpha_at ?img (fst c, snd c) < length ?p" by (rule alpha_at_less [OF wf c'])
    then have o: "?p ! alpha_at ?img (fst c, snd c) \<noteq> 0" by simp
    have "IsEmptyRegion ?img ?p (fst c) (snd c) = Inr False"
      by (rule IsEmptyRegion_blocked [OF wf c' _ o]) (simp add: dist2_def RADIUS_def)
    then show "\<not> IsStarLocation (fst c) (snd c) \<or>
              IsEmptyRegion ?img ?p (fst c) (snd c) = Inr False" by simp
  qed
  show ?thesis using no_candidate_empty_registry [OF h1 h2] .
qed

text \<open>
  C2.  In every run of generation that ends without an out-of-bounds access, on a pixel
  buffer of the image's size and whatever the swap indices of the shuffle were, any two
  stars of the registry are farther apart than \<^verbatim>\<open>RADIUS\<close>: the square of their distance
  exceeds \<^verbatim>\<open>RADIUS * RADIUS\<close>.
\<close>

theorem accepted_stars_isolated:
  assumes "well_formed img p0" "generate pick img p0 = Inr s" "i < j" "j < st_star_count s"
  shows "RADIUS * RADIUS < dist2 (registry s ! i) (registry s ! j)"
proof -
  from generate_Inr_select [OF assms(2)] obtain cands where
    c: "mset cands = mset (init_stars img)"
       "append_registry img cands p0 = Inr (registry s, st_pixels s)"
       "st_star_count s = length (registry s)" by blast
  show ?thesis
    by (rule select_pairwise [OF assms(1) in_canvas_of_mset [OF c(1)] c(2) assms(3)])
       (use assms(4) c(3) in simp)
qed

theorem accepted_stars_isolated_witness:
  "well_formed example_image example_pixels \<and>
   (\<exists>s. generate (\<lambda>i. i) example_image example_pixels = Inr s \<and>
        registry s = [(0, 0), (8, 12)] \<and> st_star_count s = 2 \<and>
        RADIUS * RADIUS < dist2 (registry s ! 0) (registry s ! 1))"
proof -
  from example_generate obtain s where
    s: "generate (\<lambda>i. i) example_image example_pixels = Inr s"
       "registry s = [(0, 0), (8, 12)]" "st_star_count s = 2" by blast
  have "(0 :: nat) < 1" "1 < st_star_count s" using s(3) by simp_all
  from accepted_stars_isolated [OF example_wf(1) s(1) this] s example_wf(1)
  show ?thesis by blast
qed

text \<open>
  C6.  The outcome of generation (the registry, or the out-of-bounds access) is a
  function of the image's dimensions, the alpha channel of the canvas and the swap
  indices that the seeded generator delivers: two canvases of the same size with the
  same alpha bytes give the same registry in the same order, whatever their gray bytes.
\<close>

theorem generation_deterministic:
  assumes "same_alpha p q"
  shows "map_sum id registry (generate pick img p) = map_sum id registry (generate pick img q)"
proof -
  have "\<And>cands. map_sum id fst (append_registry img cands p) = map_sum id fst (append_registry img cands q)"
    using same_alpha_select [OF assms, of img] by (metis (no_types, lifting) map_sum.simps fst_conv)
  then show ?thesis by (simp add: generate_outcome)
qed

theorem generation_deterministic_witness:
  "same_alpha example_pixels (example_pixels[0 := 7]) \<and>
   map_sum id registry (generate (\<lambda>i. i) example_image example_pixels) =
     Inr [(0, 0), (8, 12)] \<and>
   map_sum id registry (generate (\<lambda>i. i) example_image (example_pixels[0 := 7])) =
     Inr [(0, 0), (8, 12)]"
proof -
  have sa: "same_alpha example_pixels (example_pixels[0 := 7])"
    unfolding same_alpha_def
  proof (intro conjI allI impI)
    show "length example_pixels = length (example_pixels[0 := 7])" by simp
  next
    fix k :: nat assume "odd k"
    then have "k \<noteq> 0" by (rule contrapos_pn) simp
    then show "example_pixels ! k = example_pixels[0 := 7] ! k" by simp
  qed
  from example_generate obtain s where
    s: "generate (\<lambda>i. i) example_image example_pixels = Inr s"
       "registry s = [(0, 0), (8, 12)]" by blast
  have "map_sum id registry (generate (\<lambda>i. i) example_image example_pixels) =
        Inr [(0, 0), (8, 12)]" using s by simp
  then show ?thesis
    using sa generation_deterministic [OF sa, of "\<lambda>i. i" example_image] by simp
qed

end
